theory Spec2Isabelle
  imports Complex_Main "HOL-Library.Word" "HOL-Library.Signed_Division"
begin

unbundle bit_operations_syntax

section \<open>Primitive types (primitives.h)\<close>

text \<open>
  The fixed-width integers of \<^verbatim>\<open>primitives.h\<close> are machine words. Unsigned arithmetic
  wraps around. A signed 32-bit value (\<^verbatim>\<open>INT32\<close>, a \<^verbatim>\<open>signed int\<close>) is the same 32 bits
  read in two's complement: its sign is tested with \<open>sint\<close> and \<open><s\<close>. The source's
  \<^verbatim>\<open>+\<close>, \<^verbatim>\<open>-\<close>, \<^verbatim>\<open>++\<close> and \<^verbatim>\<open>--\<close> on a \<^verbatim>\<open>signed int\<close> have no defined result when
  the mathematical result is not representable (constant evaluation rejects them): they are
  \<open>INT32_add\<close> and \<open>INT32_sub\<close>, with \<open>None\<close> for the overflow, and every operator built
  on them returns an \<open>option\<close>. Conversions between the signed and unsigned types and
  shifts of signed values keep or move the bits (the source is C++20 code).
  A shift amount (\<^verbatim>\<open>int shift\<close>) is an \<open>int\<close>; every guard of the source on it is kept,
  so each shift of a 32-bit limb is by an amount between 0 and 31.
\<close>

type_synonym UINT8 = "8 word"
type_synonym UINT32 = "32 word"
type_synonym INT32 = "32 word"

definition INT32_in_range :: "int \<Rightarrow> bool" where
  "INT32_in_range k \<longleftrightarrow> - (2 ^ 31) \<le> k \<and> k < 2 ^ 31"

definition INT32_add :: "INT32 \<Rightarrow> INT32 \<Rightarrow> INT32 option" where
  "INT32_add a b = (if INT32_in_range (sint a + sint b) then Some (a + b) else None)"

definition INT32_sub :: "INT32 \<Rightarrow> INT32 \<Rightarrow> INT32 option" where
  "INT32_sub a b = (if INT32_in_range (sint a - sint b) then Some (a - b) else None)"

section \<open>UINT64 (uint64.h)\<close>

record UINT64 =
  low :: UINT32
  high :: UINT32

text \<open>The constructor \<^verbatim>\<open>UINT64(UINT32 h, UINT32 l)\<close>: high word first.\<close>

definition UINT64 :: "UINT32 \<Rightarrow> UINT32 \<Rightarrow> UINT64" where
  "UINT64 h l = \<lparr>low = l, high = h\<rparr>"

text \<open>\<^verbatim>\<open>UINT64(unsigned long long val)\<close> and \<^verbatim>\<open>operator unsigned long long()\<close>.\<close>

definition UINT64_of_ull :: "64 word \<Rightarrow> UINT64" where
  "UINT64_of_ull val =
     \<lparr>low = ucast (val AND 0xFFFFFFFF), high = ucast (drop_bit 32 val AND 0xFFFFFFFF)\<rparr>"

definition UINT64_to_ull :: "UINT64 \<Rightarrow> 64 word" where
  "UINT64_to_ull this = push_bit 32 (ucast (high this)) OR ucast (low this)"

subsection \<open>Comparison operators (DEFINE\_INT64\_COMPARISON\_OPERATORS at UINT64)\<close>

definition UINT64_eq :: "UINT64 \<Rightarrow> UINT64 \<Rightarrow> bool" where
  "UINT64_eq this other \<longleftrightarrow> low this = low other \<and> high this = high other"

definition UINT64_ne :: "UINT64 \<Rightarrow> UINT64 \<Rightarrow> bool" where
  "UINT64_ne this other \<longleftrightarrow> \<not> UINT64_eq this other"

definition UINT64_lt :: "UINT64 \<Rightarrow> UINT64 \<Rightarrow> bool" where
  "UINT64_lt this other =
     (if high this \<noteq> high other then high this < high other else low this < low other)"

definition UINT64_le :: "UINT64 \<Rightarrow> UINT64 \<Rightarrow> bool" where
  "UINT64_le this other =
     (if high this \<noteq> high other then high this < high other else low this \<le> low other)"

definition UINT64_gt :: "UINT64 \<Rightarrow> UINT64 \<Rightarrow> bool" where
  "UINT64_gt this other =
     (if high this \<noteq> high other then high this > high other else low this > low other)"

definition UINT64_ge :: "UINT64 \<Rightarrow> UINT64 \<Rightarrow> bool" where
  "UINT64_ge this other =
     (if high this \<noteq> high other then high this > high other else low this \<ge> low other)"

subsection \<open>Addition and subtraction\<close>

definition UINT64_add :: "UINT64 \<Rightarrow> UINT64 \<Rightarrow> UINT64" where
  "UINT64_add this other =
     (let newLow = low this + low other;
          carry = (if newLow < low this then 1 else 0);
          newHigh = high this + high other + carry
      in UINT64 newHigh newLow)"

definition UINT64_sub :: "UINT64 \<Rightarrow> UINT64 \<Rightarrow> UINT64" where
  "UINT64_sub this other =
     (let newLow = low this - low other;
          borrow = (if low this < low other then 1 else 0);
          newHigh = high this - high other - borrow
      in UINT64 newHigh newLow)"

subsection \<open>Multiplication\<close>

definition UINT64_mul :: "UINT64 \<Rightarrow> UINT64 \<Rightarrow> UINT64" where
  "UINT64_mul this other =
     (let a0 = low this AND 0xFFFF;
          a1 = drop_bit 16 (low this);
          a2 = high this AND 0xFFFF;
          a3 = drop_bit 16 (high this);
          b0 = low other AND 0xFFFF;
          b1 = drop_bit 16 (low other);
          b2 = high other AND 0xFFFF;
          b3 = drop_bit 16 (high other);
          p0 = a0 * b0;
          p1 = a1 * b0;
          p2 = a0 * b1;
          p3 = a2 * b0;
          p4 = a1 * b1;
          p5 = a0 * b2;
          p6 = a3 * b0;
          p7 = a2 * b1;
          p8 = a1 * b2;
          p9 = a0 * b3;
          r0 = p0 AND 0xFFFF;
          carry = drop_bit 16 p0;
          sum1 = carry + (p1 AND 0xFFFF) + (p2 AND 0xFFFF);
          r1 = sum1 AND 0xFFFF;
          carry = drop_bit 16 sum1;
          sum2 = carry + drop_bit 16 p1 + drop_bit 16 p2
                   + (p3 AND 0xFFFF) + (p4 AND 0xFFFF) + (p5 AND 0xFFFF);
          r2 = sum2 AND 0xFFFF;
          carry = drop_bit 16 sum2;
          sum3 = carry + drop_bit 16 p3 + drop_bit 16 p4 + drop_bit 16 p5
                   + (p6 AND 0xFFFF) + (p7 AND 0xFFFF) + (p8 AND 0xFFFF) + (p9 AND 0xFFFF);
          r3 = sum3 AND 0xFFFF;
          resultLow = r0 OR push_bit 16 r1;
          resultHigh = r2 OR push_bit 16 r3
      in UINT64 resultHigh resultLow)"

subsection \<open>Division and modulo\<close>

text \<open>
  One pass of the body of \<^verbatim>\<open>for (int i = 63; i >= 0; i--)\<close> in \<^verbatim>\<open>operator/\<close>, on the
  pair (quotient, remainder), for the loop variable \<open>i\<close>.
\<close>

definition UINT64_div_body :: "nat \<Rightarrow> UINT64 \<Rightarrow> UINT64 \<Rightarrow> UINT64 \<times> UINT64 \<Rightarrow> UINT64 \<times> UINT64" where
  "UINT64_div_body i this other qr =
     (let quotient = fst qr;
          remainder = snd qr;
          remainder = UINT64 (push_bit 1 (high remainder) OR drop_bit 31 (low remainder))
                             (push_bit 1 (low remainder));
          remainder =
            (if i \<ge> 32
             then (if drop_bit (i - 32) (high this) AND 1 \<noteq> 0
                   then remainder\<lparr>low := low remainder OR 1\<rparr> else remainder)
             else (if drop_bit i (low this) AND 1 \<noteq> 0
                   then remainder\<lparr>low := low remainder OR 1\<rparr> else remainder))
      in if UINT64_ge remainder other
         then (if i \<ge> 32
               then quotient\<lparr>high := high quotient OR push_bit (i - 32) 1\<rparr>
               else quotient\<lparr>low := low quotient OR push_bit i 1\<rparr>,
               UINT64_sub remainder other)
         else (quotient, remainder))"

text \<open>
  The loop itself: \<open>UINT64_div_loop n\<close> runs the passes for \<open>i = n - 1\<close> down to
  \<open>i = 0\<close>; the source starts it at \<open>i = 63\<close>, that is \<open>n = 64\<close>.
\<close>

fun UINT64_div_loop :: "nat \<Rightarrow> UINT64 \<Rightarrow> UINT64 \<Rightarrow> UINT64 \<times> UINT64 \<Rightarrow> UINT64 \<times> UINT64" where
  "UINT64_div_loop 0 this other qr = qr"
| "UINT64_div_loop (Suc i) this other qr =
     UINT64_div_loop i this other (UINT64_div_body i this other qr)"

definition UINT64_div :: "UINT64 \<Rightarrow> UINT64 \<Rightarrow> UINT64" where
  "UINT64_div this other =
     (if high other = 0 \<and> low other = 0 then UINT64 0 0
      else fst (UINT64_div_loop 64 this other (UINT64 0 0, UINT64 0 0)))"

text \<open>\<^verbatim>\<open>operator%\<close> has a loop of its own, which keeps the remainder only.\<close>

definition UINT64_mod_body :: "nat \<Rightarrow> UINT64 \<Rightarrow> UINT64 \<Rightarrow> UINT64 \<Rightarrow> UINT64" where
  "UINT64_mod_body i this other remainder0 =
     (let remainder = UINT64 (push_bit 1 (high remainder0) OR drop_bit 31 (low remainder0))
                             (push_bit 1 (low remainder0));
          remainder =
            (if i \<ge> 32
             then (if drop_bit (i - 32) (high this) AND 1 \<noteq> 0
                   then remainder\<lparr>low := low remainder OR 1\<rparr> else remainder)
             else (if drop_bit i (low this) AND 1 \<noteq> 0
                   then remainder\<lparr>low := low remainder OR 1\<rparr> else remainder))
      in if UINT64_ge remainder other then UINT64_sub remainder other else remainder)"

fun UINT64_mod_loop :: "nat \<Rightarrow> UINT64 \<Rightarrow> UINT64 \<Rightarrow> UINT64 \<Rightarrow> UINT64" where
  "UINT64_mod_loop 0 this other remainder = remainder"
| "UINT64_mod_loop (Suc i) this other remainder =
     UINT64_mod_loop i this other (UINT64_mod_body i this other remainder)"

definition UINT64_mod :: "UINT64 \<Rightarrow> UINT64 \<Rightarrow> UINT64" where
  "UINT64_mod this other =
     (if high other = 0 \<and> low other = 0 then UINT64 0 0
      else UINT64_mod_loop 64 this other (UINT64 0 0))"

subsection \<open>Bitwise operators (DEFINE\_INT64\_BITWISE\_OPERATORS at UINT64)\<close>

definition UINT64_and :: "UINT64 \<Rightarrow> UINT64 \<Rightarrow> UINT64" where
  "UINT64_and this other = UINT64 (high this AND high other) (low this AND low other)"

definition UINT64_or :: "UINT64 \<Rightarrow> UINT64 \<Rightarrow> UINT64" where
  "UINT64_or this other = UINT64 (high this OR high other) (low this OR low other)"

definition UINT64_xor :: "UINT64 \<Rightarrow> UINT64 \<Rightarrow> UINT64" where
  "UINT64_xor this other = UINT64 (high this XOR high other) (low this XOR low other)"

definition UINT64_not :: "UINT64 \<Rightarrow> UINT64" where
  "UINT64_not this = UINT64 (NOT (high this)) (NOT (low this))"

subsection \<open>Shifts\<close>

definition UINT64_shl :: "UINT64 \<Rightarrow> int \<Rightarrow> UINT64" where
  "UINT64_shl this shift =
     (if shift < 0 \<or> shift \<ge> 64 then UINT64 0 0
      else if shift = 0 then this
      else if shift \<ge> 32 then UINT64 (push_bit (nat (shift - 32)) (low this)) 0
      else UINT64 (push_bit (nat shift) (high this) OR drop_bit (nat (32 - shift)) (low this))
                  (push_bit (nat shift) (low this)))"

definition UINT64_shr :: "UINT64 \<Rightarrow> int \<Rightarrow> UINT64" where
  "UINT64_shr this shift =
     (if shift < 0 \<or> shift \<ge> 64 then UINT64 0 0
      else if shift = 0 then this
      else if shift \<ge> 32 then UINT64 0 (drop_bit (nat (shift - 32)) (high this))
      else UINT64 (drop_bit (nat shift) (high this))
                  (drop_bit (nat shift) (low this) OR push_bit (nat (32 - shift)) (high this)))"

subsection \<open>Increment and decrement (DEFINE\_INT64\_INCREMENT\_DECREMENT at UINT64)\<close>

text \<open>
  The prefix forms update the object and return it; the postfix forms return the old value
  and leave the object updated: the pair is (returned value, object afterwards).
\<close>

definition UINT64_pre_inc :: "UINT64 \<Rightarrow> UINT64" where
  "UINT64_pre_inc this =
     (let this = this\<lparr>low := low this + 1\<rparr>
      in if low this = 0 then this\<lparr>high := high this + 1\<rparr> else this)"

definition UINT64_post_inc :: "UINT64 \<Rightarrow> UINT64 \<times> UINT64" where
  "UINT64_post_inc this = (let temp = this in (temp, UINT64_pre_inc this))"

definition UINT64_pre_dec :: "UINT64 \<Rightarrow> UINT64" where
  "UINT64_pre_dec this =
     (let was = low this; this = this\<lparr>low := low this - 1\<rparr>
      in if was = 0 then this\<lparr>high := high this - 1\<rparr> else this)"

definition UINT64_post_dec :: "UINT64 \<Rightarrow> UINT64 \<times> UINT64" where
  "UINT64_post_dec this = (let temp = this in (temp, UINT64_pre_dec this))"

section \<open>INT64 (int64.h)\<close>

text \<open>
  The class has the same two fields, \<^verbatim>\<open>UINT32 low\<close> and \<^verbatim>\<open>INT32 high\<close>; they are
  named \<open>ilow\<close> and \<open>ihigh\<close> here to keep them apart from those of \<open>UINT64\<close>.
\<close>

record INT64 =
  ilow :: UINT32
  ihigh :: INT32

definition INT64 :: "INT32 \<Rightarrow> UINT32 \<Rightarrow> INT64" where
  "INT64 h l = \<lparr>ilow = l, ihigh = h\<rparr>"

text \<open>\<^verbatim>\<open>INT64(signed long long val)\<close> and \<^verbatim>\<open>operator signed long long()\<close>.\<close>

definition INT64_of_sll :: "64 word \<Rightarrow> INT64" where
  "INT64_of_sll val =
     \<lparr>ilow = ucast (val AND 0xFFFFFFFF), ihigh = ucast (signed_drop_bit 32 val AND 0xFFFFFFFF)\<rparr>"

definition INT64_to_sll :: "INT64 \<Rightarrow> 64 word" where
  "INT64_to_sll this = push_bit 32 (scast (ihigh this)) OR ucast (ilow this)"

text \<open>\<^verbatim>\<open>operator UINT64()\<close>.\<close>

definition INT64_to_UINT64 :: "INT64 \<Rightarrow> UINT64" where
  "INT64_to_UINT64 this = UINT64 (ihigh this) (ilow this)"

subsection \<open>Comparison operators (DEFINE\_INT64\_COMPARISON\_OPERATORS at INT64)\<close>

definition INT64_eq :: "INT64 \<Rightarrow> INT64 \<Rightarrow> bool" where
  "INT64_eq this other \<longleftrightarrow> ilow this = ilow other \<and> ihigh this = ihigh other"

definition INT64_ne :: "INT64 \<Rightarrow> INT64 \<Rightarrow> bool" where
  "INT64_ne this other \<longleftrightarrow> \<not> INT64_eq this other"

definition INT64_lt :: "INT64 \<Rightarrow> INT64 \<Rightarrow> bool" where
  "INT64_lt this other =
     (if ihigh this \<noteq> ihigh other then ihigh this <s ihigh other else ilow this < ilow other)"

definition INT64_le :: "INT64 \<Rightarrow> INT64 \<Rightarrow> bool" where
  "INT64_le this other =
     (if ihigh this \<noteq> ihigh other then ihigh this <s ihigh other else ilow this \<le> ilow other)"

definition INT64_gt :: "INT64 \<Rightarrow> INT64 \<Rightarrow> bool" where
  "INT64_gt this other =
     (if ihigh this \<noteq> ihigh other then ihigh other <s ihigh this else ilow this > ilow other)"

definition INT64_ge :: "INT64 \<Rightarrow> INT64 \<Rightarrow> bool" where
  "INT64_ge this other =
     (if ihigh this \<noteq> ihigh other then ihigh other <s ihigh this else ilow this \<ge> ilow other)"

subsection \<open>Arithmetic\<close>

text \<open>
  \<^verbatim>\<open>INT32 newHigh = high + other.high + (INT32)carry\<close> is two signed additions, from left
  to right; \<^verbatim>\<open>high - other.high - (INT32)borrow\<close> is two signed subtractions.
\<close>

definition INT64_add :: "INT64 \<Rightarrow> INT64 \<Rightarrow> INT64 option" where
  "INT64_add this other =
     (let newLow = ilow this + ilow other;
          carry = (if newLow < ilow this then 1 else 0)
      in case INT32_add (ihigh this) (ihigh other) of
           None \<Rightarrow> None
         | Some h \<Rightarrow>
             (case INT32_add h carry of
                None \<Rightarrow> None
              | Some newHigh \<Rightarrow> Some (INT64 newHigh newLow)))"

definition INT64_sub :: "INT64 \<Rightarrow> INT64 \<Rightarrow> INT64 option" where
  "INT64_sub this other =
     (let newLow = ilow this - ilow other;
          borrow = (if ilow this < ilow other then 1 else 0)
      in case INT32_sub (ihigh this) (ihigh other) of
           None \<Rightarrow> None
         | Some h \<Rightarrow>
             (case INT32_sub h borrow of
                None \<Rightarrow> None
              | Some newHigh \<Rightarrow> Some (INT64 newHigh newLow)))"

definition INT64_neg :: "INT64 \<Rightarrow> INT64 option" where
  "INT64_neg this = INT64_sub (INT64 0 0) this"

definition INT64_mul :: "INT64 \<Rightarrow> INT64 \<Rightarrow> INT64" where
  "INT64_mul this other =
     (let a = UINT64 (ihigh this) (ilow this);
          b = UINT64 (ihigh other) (ilow other);
          result = UINT64_mul a b
      in INT64 (high result) (low result))"

definition INT64_div :: "INT64 \<Rightarrow> INT64 \<Rightarrow> INT64 option" where
  "INT64_div this other =
     (if ihigh other = 0 \<and> ilow other = 0 then Some (INT64 0 0)
      else
        let negResult = ((ihigh this <s 0) \<noteq> (ihigh other <s 0))
        in case (if ihigh this <s 0 then INT64_neg this else Some this) of
             None \<Rightarrow> None
           | Some absThis \<Rightarrow>
               (case (if ihigh other <s 0 then INT64_neg other else Some other) of
                  None \<Rightarrow> None
                | Some absOther \<Rightarrow>
                    (let dividend = UINT64 (ihigh absThis) (ilow absThis);
                         divisor = UINT64 (ihigh absOther) (ilow absOther);
                         quotient = UINT64_div dividend divisor;
                         result = INT64 (high quotient) (low quotient)
                     in if negResult then INT64_neg result else Some result)))"

definition INT64_mod :: "INT64 \<Rightarrow> INT64 \<Rightarrow> INT64 option" where
  "INT64_mod this other =
     (if ihigh other = 0 \<and> ilow other = 0 then Some (INT64 0 0)
      else
        case INT64_div this other of
          None \<Rightarrow> None
        | Some q \<Rightarrow> (let quotient = q in INT64_sub this (INT64_mul quotient other)))"

subsection \<open>Bitwise operators (DEFINE\_INT64\_BITWISE\_OPERATORS at INT64)\<close>

definition INT64_and :: "INT64 \<Rightarrow> INT64 \<Rightarrow> INT64" where
  "INT64_and this other = INT64 (ihigh this AND ihigh other) (ilow this AND ilow other)"

definition INT64_or :: "INT64 \<Rightarrow> INT64 \<Rightarrow> INT64" where
  "INT64_or this other = INT64 (ihigh this OR ihigh other) (ilow this OR ilow other)"

definition INT64_xor :: "INT64 \<Rightarrow> INT64 \<Rightarrow> INT64" where
  "INT64_xor this other = INT64 (ihigh this XOR ihigh other) (ilow this XOR ilow other)"

definition INT64_not :: "INT64 \<Rightarrow> INT64" where
  "INT64_not this = INT64 (NOT (ihigh this)) (NOT (ilow this))"

subsection \<open>Shifts\<close>

definition INT64_shl :: "INT64 \<Rightarrow> int \<Rightarrow> INT64" where
  "INT64_shl this shift =
     (if shift < 0 \<or> shift \<ge> 64 then INT64 0 0
      else if shift = 0 then this
      else if shift \<ge> 32 then INT64 (push_bit (nat (shift - 32)) (ilow this)) 0
      else INT64 (push_bit (nat shift) (ihigh this) OR drop_bit (nat (32 - shift)) (ilow this))
                 (push_bit (nat shift) (ilow this)))"

text \<open>\<^verbatim>\<open>high >> shift\<close> on the signed high word is the arithmetic shift.\<close>

definition INT64_shr :: "INT64 \<Rightarrow> int \<Rightarrow> INT64" where
  "INT64_shr this shift =
     (if shift < 0 then this
      else if shift \<ge> 64
        then INT64 (if ihigh this <s 0 then - 1 else 0) (if ihigh this <s 0 then 0xFFFFFFFF else 0)
      else if shift = 0 then this
      else if shift \<ge> 32
        then INT64 (if ihigh this <s 0 then - 1 else 0)
                   (signed_drop_bit (nat (shift - 32)) (ihigh this))
      else INT64 (signed_drop_bit (nat shift) (ihigh this))
                 (drop_bit (nat shift) (ilow this) OR push_bit (nat (32 - shift)) (ihigh this)))"

subsection \<open>Increment and decrement (DEFINE\_INT64\_INCREMENT\_DECREMENT at INT64)\<close>

text \<open>
  \<^verbatim>\<open>++high\<close> and \<^verbatim>\<open>--high\<close> are a signed addition and subtraction of 1. The postfix forms
  return the pair (returned value, object afterwards).
\<close>

definition INT64_pre_inc :: "INT64 \<Rightarrow> INT64 option" where
  "INT64_pre_inc this =
     (let this = this\<lparr>ilow := ilow this + 1\<rparr>
      in if ilow this = 0
         then (case INT32_add (ihigh this) 1 of
                 None \<Rightarrow> None
               | Some h \<Rightarrow> Some (this\<lparr>ihigh := h\<rparr>))
         else Some this)"

definition INT64_post_inc :: "INT64 \<Rightarrow> (INT64 \<times> INT64) option" where
  "INT64_post_inc this =
     (let temp = this
      in case INT64_pre_inc this of
           None \<Rightarrow> None
         | Some this' \<Rightarrow> Some (temp, this'))"

definition INT64_pre_dec :: "INT64 \<Rightarrow> INT64 option" where
  "INT64_pre_dec this =
     (let was = ilow this; this = this\<lparr>ilow := ilow this - 1\<rparr>
      in if was = 0
         then (case INT32_sub (ihigh this) 1 of
                 None \<Rightarrow> None
               | Some h \<Rightarrow> Some (this\<lparr>ihigh := h\<rparr>))
         else Some this)"

definition INT64_post_dec :: "INT64 \<Rightarrow> (INT64 \<times> INT64) option" where
  "INT64_post_dec this =
     (let temp = this
      in case INT64_pre_dec this of
           None \<Rightarrow> None
         | Some this' \<Rightarrow> Some (temp, this'))"

section \<open>STACK\_ARRAY\_STORAGE (platform.h)\<close>

text \<open>
  The class template \<^verbatim>\<open>STACK_ARRAY_STORAGE<TChar, N>\<close> has one data member, the array
  \<^verbatim>\<open>USIZE words[WordCount]\<close>: the storage is that list of words. \<^verbatim>\<open>USIZE\<close> is a word of
  any width \<open>'w\<close> (32 or 64 bits in \<^verbatim>\<open>primitives.h\<close>), so \<^verbatim>\<open>WordBytes\<close> is
  \<open>LENGTH('w) div 8\<close>; an element is its unsigned bit pattern \<^verbatim>\<open>U\<close>, a word of width
  \<open>'c\<close>, so \<^verbatim>\<open>sizeof(TChar)\<close> is \<open>LENGTH('c) div 8\<close>. Byte indices and element counts are
  natural numbers. An access to \<^verbatim>\<open>words[wi]\<close> outside the array has no defined result in
  the source (and stops compile-time evaluation): it is \<open>None\<close> here.
\<close>

definition SetByte :: "nat \<Rightarrow> UINT8 \<Rightarrow> 'w::len word list \<Rightarrow> 'w word list option" where
  "SetByte byteIndex v words =
     (let WordBytes = LENGTH('w) div 8;
          wi = byteIndex div WordBytes;
          sh = (byteIndex mod WordBytes) * 8;
          mask = push_bit sh (0xFF :: 'w word)
      in if wi < length words
         then Some (words[wi := (words ! wi AND NOT mask) OR push_bit sh (ucast v)])
         else None)"

definition GetByte :: "nat \<Rightarrow> 'w::len word list \<Rightarrow> UINT8 option" where
  "GetByte byteIndex words =
     (let WordBytes = LENGTH('w) div 8;
          wi = byteIndex div WordBytes;
          sh = (byteIndex mod WordBytes) * 8
      in if wi < length words
         then Some (ucast (drop_bit sh (words ! wi) AND 0xFF))
         else None)"

function STACK_ARRAY_STORAGE_bytes ::
  "'c::len word \<Rightarrow> nat \<Rightarrow> nat \<Rightarrow> 'w::len word list \<Rightarrow> 'w word list option" where
  "STACK_ARRAY_STORAGE_bytes v i b words =
     (if b < LENGTH('c) div 8
      then (case SetByte (i * (LENGTH('c) div 8) + b) (ucast (drop_bit (b * 8) v AND 0xFF)) words of
              None \<Rightarrow> None
            | Some words' \<Rightarrow> STACK_ARRAY_STORAGE_bytes v i (Suc b) words')
      else Some words)"
  by pat_completeness auto
termination
  by (relation "measure (\<lambda>(v :: 'c::len word, i, b, words :: 'w::len word list). LENGTH('c) div 8 - b)") auto

function STACK_ARRAY_STORAGE_elems ::
  "'c::len word list \<Rightarrow> nat \<Rightarrow> 'w::len word list \<Rightarrow> 'w word list option" where
  "STACK_ARRAY_STORAGE_elems src i words =
     (if i < length src
      then (case STACK_ARRAY_STORAGE_bytes (src ! i) i 0 words of
              None \<Rightarrow> None
            | Some words' \<Rightarrow> STACK_ARRAY_STORAGE_elems src (Suc i) words')
      else Some words)"
  by pat_completeness auto
termination
  by (relation "measure (\<lambda>(src, i, words). length src - i)") auto

definition STACK_ARRAY_STORAGE :: "'c::len word list \<Rightarrow> 'w::len word list option" where
  "STACK_ARRAY_STORAGE src =
     (let SizeBytes = length src * (LENGTH('c) div 8);
          WordBytes = LENGTH('w) div 8;
          WordCount = (SizeBytes + WordBytes - 1) div WordBytes
      in STACK_ARRAY_STORAGE_elems src 0 (replicate WordCount 0))"

function STACK_ARRAY_STORAGE_index_bytes ::
  "nat \<Rightarrow> nat \<Rightarrow> 'c::len word \<Rightarrow> 'w::len word list \<Rightarrow> 'c word option" where
  "STACK_ARRAY_STORAGE_index_bytes base b v words =
     (if b < LENGTH('c) div 8
      then (case GetByte (base + b) words of
              None \<Rightarrow> None
            | Some g \<Rightarrow> STACK_ARRAY_STORAGE_index_bytes base (Suc b)
                         (v OR push_bit (b * 8) (ucast g)) words)
      else Some v)"
  by pat_completeness auto
termination
  by (relation "measure (\<lambda>(base, b, v :: 'c::len word, words :: 'w::len word list). LENGTH('c) div 8 - b)") auto

definition STACK_ARRAY_STORAGE_index :: "'w::len word list \<Rightarrow> nat \<Rightarrow> 'c::len word option" where
  "STACK_ARRAY_STORAGE_index words index =
     (let base = index * (LENGTH('c) div 8)
      in STACK_ARRAY_STORAGE_index_bytes base 0 0 words)"

declare STACK_ARRAY_STORAGE_bytes.simps [simp del]
declare STACK_ARRAY_STORAGE_elems.simps [simp del]
declare STACK_ARRAY_STORAGE_index_bytes.simps [simp del]

section \<open>memcpy (allocator.cc)\<close>

text \<open>
  Memory is a store from addresses to bytes; a pointer is an address and the null pointer is
  address 0. \<^verbatim>\<open>memcpy\<close> returns its result pointer together with the memory afterwards.
  The loop reads \<^verbatim>\<open>s[i]\<close> from the memory as the earlier passes left it.
  \<^verbatim>\<open>Allocator::CopyMemory\<close> forwards to it unchanged.
\<close>

type_synonym memory = "nat \<Rightarrow> UINT8"

function memcpy_loop :: "nat \<Rightarrow> nat \<Rightarrow> nat \<Rightarrow> nat \<Rightarrow> memory \<Rightarrow> memory" where
  "memcpy_loop d s count i mem =
     (if i < count then memcpy_loop d s count (Suc i) (mem(d + i := mem (s + i))) else mem)"
  by pat_completeness auto
termination
  by (relation "measure (\<lambda>(d, s, count, i, mem). count - i)") auto

declare memcpy_loop.simps [simp del]

definition memcpy :: "nat \<Rightarrow> nat \<Rightarrow> nat \<Rightarrow> memory \<Rightarrow> nat \<times> memory" where
  "memcpy dest src count mem =
     (if dest = 0 \<or> src = 0 \<or> count = 0 then (dest, mem)
      else (dest, memcpy_loop dest src count 0 mem))"

text \<open>A memory image with three distinct bytes at addresses 1, 2 and 3, used as an input below.\<close>

definition overlap_mem :: memory where
  "overlap_mem a = (if a = 1 then 0xAA else if a = 2 then 0xBB else if a = 3 then 0xCC else 0)"

section \<open>DOUBLE\<close>

text \<open>
  Modelled from the spec: the class \<^verbatim>\<open>DOUBLE\<close> of \<^verbatim>\<open>double.h\<close>, which is not among the
  sources. The spec says that it wraps a 64-bit bit pattern held as a word pair.
\<close>

record DOUBLE =
  bits :: UINT64

text \<open>
  Modelled from the spec: the constructor from explicit high and low bit-pattern words.
\<close>

definition DOUBLE :: "UINT32 \<Rightarrow> UINT32 \<Rightarrow> DOUBLE" where
  "DOUBLE h l = \<lparr>bits = UINT64 h l\<rparr>"

text \<open>
  Modelled from the spec: the sign bit of the IEEE-754 binary64 encoding (sign: 1 bit,
  exponent: 11 bits, mantissa: 52 bits); \<^verbatim>\<open>double.h\<close> is not among the sources.
\<close>

definition DOUBLE_sign :: "DOUBLE \<Rightarrow> bool" where
  "DOUBLE_sign d = bit (UINT64_to_ull (bits d)) 63"

text \<open>Modelled from the spec: the 11-bit exponent field, bits 62 to 52 of the pattern.\<close>

definition DOUBLE_exponent :: "DOUBLE \<Rightarrow> nat" where
  "DOUBLE_exponent d = unat (drop_bit 52 (UINT64_to_ull (bits d)) AND 0x7FF)"

text \<open>Modelled from the spec: the 52-bit mantissa field, bits 51 to 0 of the pattern.\<close>

definition DOUBLE_mantissa :: "DOUBLE \<Rightarrow> nat" where
  "DOUBLE_mantissa d = unat (UINT64_to_ull (bits d) AND 0xFFFFFFFFFFFFF)"

text \<open>
  Modelled from the spec: a finite value is an encoding whose exponent field is not all ones.
\<close>

definition DOUBLE_finite :: "DOUBLE \<Rightarrow> bool" where
  "DOUBLE_finite d \<longleftrightarrow> DOUBLE_exponent d \<noteq> 2047"

text \<open>
  Modelled from the spec: the number that the encoding stands for, the binary64 value of the
  three fields (subnormal when the exponent field is zero); \<^verbatim>\<open>double.h\<close> is not among
  the sources.
\<close>

definition DOUBLE_value :: "DOUBLE \<Rightarrow> real" where
  "DOUBLE_value d =
     (let e = DOUBLE_exponent d;
          m = DOUBLE_mantissa d;
          significand = (if e = 0 then m else 2 ^ 52 + m);
          scale = (if e = 0 then 1 else e);
          magnitude = (if 1075 \<le> scale then of_nat significand * 2 ^ (scale - 1075)
                       else of_nat significand / 2 ^ (1075 - scale))
      in if DOUBLE_sign d then - magnitude else magnitude)"

text \<open>
  Modelled from the spec: the conversion operator to an integer of \<^verbatim>\<open>double.h\<close>, which is
  not among the sources. The spec says that conversion to integer truncates toward zero; the
  result is the mathematical integer, the spec being silent on values outside the range of
  the target type.
\<close>

definition DOUBLE_to_int :: "DOUBLE \<Rightarrow> int" where
  "DOUBLE_to_int d = (let v = DOUBLE_value d in if 0 \<le> v then \<lfloor>v\<rfloor> else \<lceil>v\<rceil>)"

section \<open>Division by zero\<close>

text \<open>
  Claim C2. For every value \<open>a\<close>, in the unsigned and in the signed variant, dividing
  \<open>a\<close> by zero and taking \<open>a\<close> modulo zero both return zero. The unsigned operators
  are total functions with no error result; the signed ones test the divisor before any signed
  arithmetic, so on a zero divisor they have a defined result: nothing traps or signals.
\<close>

theorem division_by_zero_is_zero:
  "UINT64_div a (UINT64 0 0) = UINT64 0 0
   \<and> UINT64_mod a (UINT64 0 0) = UINT64 0 0
   \<and> INT64_div b (INT64 0 0) = Some (INT64 0 0)
   \<and> INT64_mod b (INT64 0 0) = Some (INT64 0 0)
   \<and> UINT64_to_ull (UINT64 0 0) = 0 \<and> INT64_to_sll (INT64 0 0) = 0"
  by (simp add: UINT64_div_def UINT64_mod_def INT64_div_def INT64_mod_def UINT64_def INT64_def
      UINT64_to_ull_def INT64_to_sll_def)

section \<open>Shifts by a negative amount\<close>

text \<open>
  Claim C10. For a negative shift amount \<open>s\<close>: the unsigned \<open>a << s\<close> and \<open>a >> s\<close> are
  both 0; the signed \<open>a << s\<close> is 0, but the signed \<open>a >> s\<close> returns \<open>a\<close> unchanged.
\<close>

theorem negative_shift_asymmetry:
  "s < 0 \<Longrightarrow>
     UINT64_shl a s = UINT64 0 0 \<and> UINT64_shr a s = UINT64 0 0
     \<and> INT64_shl b s = INT64 0 0 \<and> INT64_shr b s = b"
  by (simp add: UINT64_shl_def UINT64_shr_def INT64_shl_def INT64_shr_def)

theorem negative_shift_asymmetry_witness:
  "(- 3 :: int) < 0
   \<and> UINT64_shl (UINT64 7 9) (- 3) = UINT64 0 0 \<and> UINT64_shr (UINT64 7 9) (- 3) = UINT64 0 0
   \<and> INT64_shl (INT64 (- 1) 5) (- 3) = INT64 0 0
   \<and> INT64_shr (INT64 (- 1) 5) (- 3) = INT64 (- 1) 5
   \<and> INT64 (- 1) 5 \<noteq> INT64 0 0"
  using negative_shift_asymmetry [of "- 3" "UINT64 7 9" "INT64 (- 1) 5"]
  by (simp add: INT64_def)

section \<open>The 64-bit value of a word pair\<close>

text \<open>
  \<open>UINT64_to_ull\<close> is the conversion operator of the class; the lemmas below read it bit by
  bit and as an integer, and show that comparison, addition and subtraction on the word pair
  are those of the 64-bit value.
\<close>

lemma to_ull_bit:
  "bit (UINT64_to_ull a) n \<longleftrightarrow> (if n < 32 then bit (low a) n else n < 64 \<and> bit (high a) (n - 32))"
  by (auto simp: UINT64_to_ull_def bit_simps dest: bit_imp_le_length)

lemma to_ull_shl:
  assumes "0 \<le> s" "s < 64"
  shows "UINT64_to_ull (UINT64_shl a s) = push_bit (nat s) (UINT64_to_ull a)"
proof (rule bit_word_eqI)
  fix n assume "n < LENGTH(64)"
  with assms show "bit (UINT64_to_ull (UINT64_shl a s)) n = bit (push_bit (nat s) (UINT64_to_ull a)) n"
    by (auto simp: to_ull_bit UINT64_shl_def UINT64_def bit_simps nat_diff_distrib nat_le_iff nat_less_iff dest: bit_imp_le_length)
      (simp_all add: add.commute)
qed

lemma to_ull_shr:
  assumes "0 \<le> s" "s < 64"
  shows "UINT64_to_ull (UINT64_shr a s) = drop_bit (nat s) (UINT64_to_ull a)"
proof (rule bit_word_eqI)
  fix n assume "n < LENGTH(64)"
  with assms show "bit (UINT64_to_ull (UINT64_shr a s)) n = bit (drop_bit (nat s) (UINT64_to_ull a)) n"
    by (auto simp: to_ull_bit UINT64_shr_def UINT64_def bit_simps nat_diff_distrib nat_le_iff nat_less_iff dest: bit_imp_le_length)
      (simp_all add: add.commute)
qed

lemma to_ull_plus: "UINT64_to_ull a = push_bit 32 (ucast (high a)) + ucast (low a)"
  unfolding UINT64_to_ull_def
  by (rule disjunctive_add_eq_or [symmetric], rule bit_word_eqI)
     (auto simp: bit_simps dest: bit_imp_le_length)

lemma uint_to_ull: "uint (UINT64_to_ull a) = uint (high a) * 2 ^ 32 + uint (low a)"
proof -
  have h: "uint (high a) < 2 ^ 32" and l: "uint (low a) < 2 ^ 32"
    using uint_lt2p [of "high a"] uint_lt2p [of "low a"] by simp_all
  have "uint (UINT64_to_ull a) = (uint (high a) * 2 ^ 32 + uint (low a)) mod 2 ^ 64"
    apply (simp add: to_ull_plus uint_word_ariths push_bit_eq_mult unsigned_ucast_eq take_bit_eq_mod)
    apply (simp add: mod_simps)
    done
  also have "\<dots> = uint (high a) * 2 ^ 32 + uint (low a)"
    using h l by (intro mod_pos_pos_trivial) auto
  finally show ?thesis .
qed

lemma woi_mod: "(word_of_int ((X mod 2 ^ 32) * 2 ^ 32 + Y) :: 64 word) = word_of_int (X * 2 ^ 32 + Y)"
proof -
  have e: "(X mod 2 ^ 32) * 2 ^ 32 = (X * 2 ^ 32) mod (2 ^ 64 :: int)"
    using mult_mod_right [of "2 ^ 32" X "2 ^ 32"] by (simp add: mult.commute)
  have "((X mod 2 ^ 32) * 2 ^ 32 + Y) mod 2 ^ 64 = (X * 2 ^ 32 + Y) mod (2 ^ 64 :: int)"
    unfolding e by (rule mod_add_left_eq)
  then show ?thesis
    unfolding word_of_int_eq_iff take_bit_eq_mod by simp
qed

lemma to_ull_int: "UINT64_to_ull a = word_of_int (uint (high a) * 2 ^ 32 + uint (low a))"
  using uint_to_ull [of a] by (metis word_of_int_uint)

lemma to_ull_UINT64: "UINT64_to_ull (UINT64 h l) = word_of_int (uint h * 2 ^ 32 + uint l)"
  by (simp only: to_ull_int UINT64_def UINT64.select_convs)

lemma carry_iff: "(a + b < a) \<longleftrightarrow> 2 ^ 32 \<le> uint a + uint b" for a b :: "32 word"
  using uint_lt2p [of a] uint_lt2p [of b] uint_ge_0 [of a] uint_ge_0 [of b]
  by (auto simp: word_less_alt uint_plus_if' split: if_splits)

lemma to_ull_add: "UINT64_to_ull (UINT64_add a b) = UINT64_to_ull a + UINT64_to_ull b"
proof -
  let ?c = "if 2 ^ 32 \<le> uint (low a) + uint (low b) then 1 else 0 :: int"
  have lo: "uint (low a + low b) = uint (low a) + uint (low b) - ?c * 2 ^ 32"
    by (simp add: uint_plus_if')
  have hi: "uint (high a + high b + (if low a + low b < low a then 1 else 0))
      = (uint (high a) + uint (high b) + ?c) mod 2 ^ 32"
    by (simp add: carry_iff uint_word_ariths mod_simps)
  have "UINT64_to_ull (UINT64_add a b)
      = word_of_int ((uint (high a) + uint (high b) + ?c) mod 2 ^ 32 * 2 ^ 32
           + (uint (low a) + uint (low b) - ?c * 2 ^ 32))"
    unfolding UINT64_add_def Let_def to_ull_UINT64 hi lo ..
  also have "\<dots> = word_of_int ((uint (high a) + uint (high b) + ?c) * 2 ^ 32
           + (uint (low a) + uint (low b) - ?c * 2 ^ 32))"
    by (rule woi_mod)
  also have "\<dots> = word_of_int (uint (UINT64_to_ull a) + uint (UINT64_to_ull b))"
    by (simp only: uint_to_ull) (simp add: algebra_simps)
  also have "\<dots> = UINT64_to_ull a + UINT64_to_ull b"
    by simp
  finally show ?thesis .
qed

lemma borrow_iff: "(a < b) \<longleftrightarrow> uint a < uint b" for a b :: "32 word"
  by (rule word_less_alt)

lemma to_ull_sub: "UINT64_to_ull (UINT64_sub a b) = UINT64_to_ull a - UINT64_to_ull b"
proof -
  let ?c = "if uint (low a) < uint (low b) then 1 else 0 :: int"
  have lo: "uint (low a - low b) = uint (low a) - uint (low b) + ?c * 2 ^ 32"
    by (simp add: uint_sub_if')
  have hi: "uint (high a - high b - (if low a < low b then 1 else 0))
      = (uint (high a) - uint (high b) - ?c) mod 2 ^ 32"
    by (simp add: word_less_alt uint_word_ariths mod_simps)
  have "UINT64_to_ull (UINT64_sub a b)
      = word_of_int ((uint (high a) - uint (high b) - ?c) mod 2 ^ 32 * 2 ^ 32
           + (uint (low a) - uint (low b) + ?c * 2 ^ 32))"
    unfolding UINT64_sub_def Let_def to_ull_UINT64 hi lo ..
  also have "\<dots> = word_of_int ((uint (high a) - uint (high b) - ?c) * 2 ^ 32
           + (uint (low a) - uint (low b) + ?c * 2 ^ 32))"
    by (rule woi_mod)
  also have "\<dots> = word_of_int (uint (UINT64_to_ull a) - uint (UINT64_to_ull b))"
    by (simp only: uint_to_ull) (simp add: algebra_simps)
  also have "\<dots> = UINT64_to_ull a - UINT64_to_ull b"
    by simp
  finally show ?thesis .
qed

lemma lex_int:
  fixes h1 l1 h2 l2 :: int
  assumes "0 \<le> l1" "l1 < 2 ^ 32" "0 \<le> l2" "l2 < 2 ^ 32"
  shows "h1 * 2 ^ 32 + l1 \<le> h2 * 2 ^ 32 + l2 \<longleftrightarrow> h1 < h2 \<or> (h1 = h2 \<and> l1 \<le> l2)"
proof (cases "h1 < h2")
  case True
  then have "h1 + 1 \<le> h2" by simp
  then have "(h1 + 1) * 2 ^ 32 \<le> h2 * (2 ^ 32 :: int)" by (rule mult_right_mono) simp
  with assms True show ?thesis by (simp add: algebra_simps)
next
  case False
  show ?thesis
  proof (cases "h1 = h2")
    case True
    then show ?thesis by simp
  next
    case ne: False
    with False have "h2 + 1 \<le> h1" by simp
    then have "(h2 + 1) * 2 ^ 32 \<le> h1 * (2 ^ 32 :: int)" by (rule mult_right_mono) simp
    with assms False ne show ?thesis by (simp add: algebra_simps)
  qed
qed

lemma UINT64_le_iff: "UINT64_le a b \<longleftrightarrow> UINT64_to_ull a \<le> UINT64_to_ull b"
  using lex_int [of "uint (low a)" "uint (low b)" "uint (high a)" "uint (high b)"]
    uint_lt2p [of "low a"] uint_lt2p [of "low b"]
  by (auto simp: UINT64_le_def word_le_def word_less_alt uint_to_ull word_uint_eq_iff)

lemma UINT64_ge_iff: "UINT64_ge a b \<longleftrightarrow> UINT64_to_ull b \<le> UINT64_to_ull a"
  using lex_int [of "uint (low b)" "uint (low a)" "uint (high b)" "uint (high a)"]
    uint_lt2p [of "low a"] uint_lt2p [of "low b"]
  by (auto simp: UINT64_ge_def word_le_def word_less_alt uint_to_ull word_uint_eq_iff)

section \<open>Restoring long division\<close>

lemma divstep_int:
  fixes X B c :: int
  assumes B: "0 < B" and X: "0 \<le> X" and c: "c = 0 \<or> c = 1"
  shows "(2 * X + c) div B = 2 * (X div B) + (if B \<le> 2 * (X mod B) + c then 1 else 0)"
    and "(2 * X + c) mod B = (if B \<le> 2 * (X mod B) + c then 2 * (X mod B) + c - B else 2 * (X mod B) + c)"
proof -
  define Q M where "Q = X div B" and "M = X mod B"
  let ?r = "2 * M + c"
  have d: "X = Q * B + M" by (simp add: Q_def M_def)
  have M0: "0 \<le> M" and MB: "M < B" using B by (simp_all add: M_def)
  have r0: "0 \<le> ?r" using M0 c by auto
  have rb: "?r < 2 * B" using MB c by auto
  have e1: "2 * X + c = ?r + (2 * Q) * B"
    by (simp add: d algebra_simps)
  have e2: "2 * X + c = (?r - B) + (2 * Q + 1) * B"
    by (simp add: d algebra_simps)
  have Bn: "B \<noteq> 0" using B by simp
  have "(2 * X + c) div B = 2 * Q + (if B \<le> ?r then 1 else 0)"
  proof (cases "B \<le> ?r")
    case True
    then have "(?r - B) div B = 0" using rb by (intro div_pos_pos_trivial) auto
    with True Bn show ?thesis by (subst e2) (simp only: div_mult_self1 if_True, simp)
  next
    case False
    then have "?r div B = 0" using r0 by (intro div_pos_pos_trivial) auto
    with False Bn show ?thesis by (subst e1) (simp only: div_mult_self1 if_False, simp)
  qed
  then show "(2 * X + c) div B = 2 * (X div B) + (if B \<le> 2 * (X mod B) + c then 1 else 0)"
    by (simp only: Q_def M_def)
  have "(2 * X + c) mod B = (if B \<le> ?r then ?r - B else ?r)"
  proof (cases "B \<le> ?r")
    case True
    then have "(?r - B) mod B = ?r - B" using rb by (intro mod_pos_pos_trivial) auto
    with True show ?thesis by (subst e2) (simp only: mod_mult_self1 if_True)
  next
    case False
    then have "?r mod B = ?r" using r0 by (intro mod_pos_pos_trivial) auto
    with False show ?thesis by (subst e1) (simp only: mod_mult_self1 if_False)
  qed
  then show "(2 * X + c) mod B = (if B \<le> 2 * (X mod B) + c then 2 * (X mod B) + c - B else 2 * (X mod B) + c)"
    by (simp only: Q_def M_def)
qed

lemma bit_test: "(drop_bit k w AND 1 \<noteq> 0) \<longleftrightarrow> bit w k" for w :: "'a::len word"
  by (simp add: and_one_eq bit_iff_odd_drop_bit odd_iff_mod_2_eq_one)

lemma uint_drop_bit: "uint (drop_bit n A) = uint A div 2 ^ n" for A :: "'a::len word"
  by (simp add: unsigned_drop_bit_eq) (simp add: drop_bit_eq_div take_bit_int_eq_self uint_lt2p)

lemma uint_drop_bit_Suc:
  fixes A :: "64 word"
  shows "uint (drop_bit i A) = 2 * uint (drop_bit (Suc i) A) + (if bit A i then 1 else 0)"
proof (cases "i < 64")
  case True
  have "bit A i = bit (uint A) i" using True by (simp add: bit_uint_iff)
  also have "\<dots> = odd (uint A div 2 ^ i)" by (simp only: bit_iff_odd)
  finally have b: "bit A i = odd (uint A div 2 ^ i)" .
  have "uint A div 2 ^ i = 2 * (uint A div 2 ^ i div 2) + uint A div 2 ^ i mod 2"
    by simp
  moreover have "uint A div 2 ^ i mod 2 = (if bit A i then 1 else 0)"
    unfolding b by presburger
  moreover have "uint A div 2 ^ Suc i = uint A div 2 ^ i div 2"
    using zdiv_zmult2_eq [of 2 "uint A" "2 ^ i"] by (simp add: mult.commute)
  ultimately show ?thesis
    by (simp only: uint_drop_bit)
next
  case False
  then have "drop_bit i A = 0" "drop_bit (Suc i) A = 0" "\<not> bit A i"
    by (auto simp: bit_eq_iff bit_simps dest: bit_imp_le_length)
  then show ?thesis by simp
qed

lemma uint_drop_bit_Suc_bound:
  fixes A :: "64 word"
  shows "uint (drop_bit (Suc i) A) < 2 ^ 63"
proof -
  have "uint A < 2 ^ 64" using uint_lt2p [of A] by simp
  then have "uint A div 2 < 2 ^ 63" by simp
  moreover have "uint A div 2 ^ Suc i \<le> uint A div 2"
    by (rule zdiv_mono2) simp_all
  ultimately show ?thesis
    by (simp only: uint_drop_bit)
qed

lemma shl1_to_ull:
  "UINT64_to_ull (UINT64 (push_bit 1 (high r) OR drop_bit 31 (low r)) (push_bit 1 (low r)))
     = push_bit 1 (UINT64_to_ull r)"
  using to_ull_shl [of 1 r] by (simp add: UINT64_shl_def)

lemma inject_to_ull: "UINT64_to_ull (r\<lparr>low := low r OR 1\<rparr>) = UINT64_to_ull r OR 1"
  by (rule bit_word_eqI) (auto simp: to_ull_bit bit_simps)

lemma set_qbit_high:
  "32 \<le> i \<Longrightarrow> i < 64 \<Longrightarrow>
     UINT64_to_ull (q\<lparr>high := high q OR push_bit (i - 32) 1\<rparr>) = UINT64_to_ull q OR push_bit i 1"
  by (rule bit_word_eqI) (auto simp: to_ull_bit bit_simps)

lemma set_qbit_low:
  "i < 32 \<Longrightarrow>
     UINT64_to_ull (q\<lparr>low := low q OR push_bit i 1\<rparr>) = UINT64_to_ull q OR push_bit i 1"
  by (rule bit_word_eqI) (auto simp: to_ull_bit bit_simps)

lemma test_bit_high:
  "32 \<le> i \<Longrightarrow> i < 64 \<Longrightarrow> (drop_bit (i - 32) (high a) AND 1 \<noteq> 0) = bit (UINT64_to_ull a) i"
  by (simp add: bit_test to_ull_bit)

lemma test_bit_low:
  "i < 32 \<Longrightarrow> (drop_bit i (low a) AND 1 \<noteq> 0) = bit (UINT64_to_ull a) i"
  by (simp add: bit_test to_ull_bit)

lemma next_remainder_to_ull:
  fixes a r :: UINT64
  assumes "i < 64"
  defines "r0 \<equiv> UINT64 (push_bit 1 (high r) OR drop_bit 31 (low r)) (push_bit 1 (low r))"
  shows "UINT64_to_ull
           (if i \<ge> 32
            then (if drop_bit (i - 32) (high a) AND 1 \<noteq> 0 then r0\<lparr>low := low r0 OR 1\<rparr> else r0)
            else (if drop_bit i (low a) AND 1 \<noteq> 0 then r0\<lparr>low := low r0 OR 1\<rparr> else r0))
         = push_bit 1 (UINT64_to_ull r) OR (if bit (UINT64_to_ull a) i then 1 else 0)"
proof -
  have r0: "UINT64_to_ull r0 = push_bit 1 (UINT64_to_ull r)"
    unfolding r0_def by (rule shl1_to_ull)
  have "(if i \<ge> 32
            then (if drop_bit (i - 32) (high a) AND 1 \<noteq> 0 then r0\<lparr>low := low r0 OR 1\<rparr> else r0)
            else (if drop_bit i (low a) AND 1 \<noteq> 0 then r0\<lparr>low := low r0 OR 1\<rparr> else r0))
        = (if bit (UINT64_to_ull a) i then r0\<lparr>low := low r0 OR 1\<rparr> else r0)"
    using assms(1) by (cases "32 \<le> i") (simp_all add: test_bit_high test_bit_low)
  then show ?thesis
    by (simp only: inject_to_ull r0 if_distrib [of UINT64_to_ull]) simp
qed

lemma div_body_to_ull:
  fixes a b q r :: UINT64
  assumes "i < 64"
  defines "r1 \<equiv> push_bit 1 (UINT64_to_ull r) OR (if bit (UINT64_to_ull a) i then 1 else 0)"
  shows "UINT64_to_ull (snd (UINT64_div_body i a b (q, r)))
           = (if UINT64_to_ull b \<le> r1 then r1 - UINT64_to_ull b else r1)"
    and "UINT64_to_ull (fst (UINT64_div_body i a b (q, r)))
           = (if UINT64_to_ull b \<le> r1 then UINT64_to_ull q OR push_bit i 1 else UINT64_to_ull q)"
proof -
  define r0 where "r0 = UINT64 (push_bit 1 (high r) OR drop_bit 31 (low r)) (push_bit 1 (low r))"
  define rem1 where "rem1 =
     (if i \<ge> 32
      then (if drop_bit (i - 32) (high a) AND 1 \<noteq> 0 then r0\<lparr>low := low r0 OR 1\<rparr> else r0)
      else (if drop_bit i (low a) AND 1 \<noteq> 0 then r0\<lparr>low := low r0 OR 1\<rparr> else r0))"
  have body: "UINT64_div_body i a b (q, r) =
     (if UINT64_ge rem1 b
      then (if i \<ge> 32 then q\<lparr>high := high q OR push_bit (i - 32) 1\<rparr>
            else q\<lparr>low := low q OR push_bit i 1\<rparr>, UINT64_sub rem1 b)
      else (q, rem1))"
    unfolding UINT64_div_body_def Let_def rem1_def r0_def fst_conv snd_conv ..
  have rem1: "UINT64_to_ull rem1 = r1"
    unfolding rem1_def r0_def r1_def by (rule next_remainder_to_ull [OF assms(1)])
  show "UINT64_to_ull (snd (UINT64_div_body i a b (q, r)))
           = (if UINT64_to_ull b \<le> r1 then r1 - UINT64_to_ull b else r1)"
    unfolding body by (simp add: UINT64_ge_iff to_ull_sub rem1)
  show "UINT64_to_ull (fst (UINT64_div_body i a b (q, r)))
           = (if UINT64_to_ull b \<le> r1 then UINT64_to_ull q OR push_bit i 1 else UINT64_to_ull q)"
    unfolding body using assms(1)
    by (simp add: UINT64_ge_iff rem1 set_qbit_high set_qbit_low del: push_bit_of_1)
qed

lemma mod_body_to_ull:
  fixes a b r :: UINT64
  assumes "i < 64"
  defines "r1 \<equiv> push_bit 1 (UINT64_to_ull r) OR (if bit (UINT64_to_ull a) i then 1 else 0)"
  shows "UINT64_to_ull (UINT64_mod_body i a b r)
           = (if UINT64_to_ull b \<le> r1 then r1 - UINT64_to_ull b else r1)"
proof -
  define r0 where "r0 = UINT64 (push_bit 1 (high r) OR drop_bit 31 (low r)) (push_bit 1 (low r))"
  define rem1 where "rem1 =
     (if i \<ge> 32
      then (if drop_bit (i - 32) (high a) AND 1 \<noteq> 0 then r0\<lparr>low := low r0 OR 1\<rparr> else r0)
      else (if drop_bit i (low a) AND 1 \<noteq> 0 then r0\<lparr>low := low r0 OR 1\<rparr> else r0))"
  have body: "UINT64_mod_body i a b r =
     (if UINT64_ge rem1 b then UINT64_sub rem1 b else rem1)"
    unfolding UINT64_mod_body_def Let_def rem1_def r0_def ..
  have rem1: "UINT64_to_ull rem1 = r1"
    unfolding rem1_def r0_def r1_def by (rule next_remainder_to_ull [OF assms(1)])
  show ?thesis
    unfolding body by (simp add: UINT64_ge_iff to_ull_sub rem1)
qed

lemma word_div_step:
  fixes A B R Q :: "64 word"
  assumes B: "B \<noteq> 0"
    and R: "R = drop_bit (Suc i) A mod B"
    and Q: "Q = push_bit (Suc i) (drop_bit (Suc i) A div B)"
  defines "r1 \<equiv> push_bit 1 R OR (if bit A i then 1 else 0)"
  shows "(if B \<le> r1 then r1 - B else r1) = drop_bit i A mod B"
    and "(if B \<le> r1 then Q OR push_bit i 1 else Q) = push_bit i (drop_bit i A div B)"
proof -
  define X X' b where "X = uint (drop_bit (Suc i) A)" and "X' = uint (drop_bit i A)"
    and "b = uint B"
  define c :: int where "c = (if bit A i then 1 else 0)"
  define cw :: "64 word" where "cw = (if bit A i then 1 else 0)"
  define K where "K = drop_bit (Suc i) A div B"
  have b: "0 < b" using B by (simp add: b_def word_neq_0_conv [symmetric] word_less_alt [symmetric, where a = 0, simplified] uint_0_iff order_less_le)
  have X0: "0 \<le> X" by (simp add: X_def)
  have X63: "X < 2 ^ 63" unfolding X_def by (rule uint_drop_bit_Suc_bound)
  have X': "X' = 2 * X + c" unfolding X'_def X_def c_def by (rule uint_drop_bit_Suc)
  have c: "c = 0 \<or> c = 1" by (simp add: c_def)
  have ucw: "uint cw = c" by (simp add: cw_def c_def)
  have uR: "uint R = X mod b" by (simp add: R uint_mod X_def b_def)
  have uR63: "uint R < 2 ^ 63"
    using zmod_le_nonneg_dividend [OF X0, of b] X63 by (simp add: uR)
  have "2 * R AND cw = 0"
    by (simp add: cw_def and_one_eq mod_2_eq_odd)
  then have "2 * R OR cw = 2 * R + cw"
    by (rule disjunctive_add_eq_or [symmetric])
  then have r1_plus: "r1 = 2 * R + cw"
    unfolding r1_def cw_def [symmetric]
    by (simp add: push_bit_eq_mult mult.commute)
  have ur1: "uint r1 = 2 * (X mod b) + c"
  proof -
    have "uint r1 = (2 * uint R + c) mod 2 ^ 64"
      by (simp add: r1_plus uint_word_ariths ucw mod_simps)
    also have "\<dots> = 2 * uint R + c"
      using uR63 c by (intro mod_pos_pos_trivial) auto
    finally show ?thesis by (simp add: uR)
  qed
  have le: "B \<le> r1 \<longleftrightarrow> b \<le> 2 * (X mod b) + c"
    by (simp add: word_le_def ur1 b_def)
  note ds = divstep_int [OF b X0 c]
  show "(if B \<le> r1 then r1 - B else r1) = drop_bit i A mod B"
  proof (rule word_uint_eqI)
    have "uint (if B \<le> r1 then r1 - B else r1)
        = (if b \<le> 2 * (X mod b) + c then 2 * (X mod b) + c - b else 2 * (X mod b) + c)"
      using uint_sub_lem [of B r1] by (auto simp: le ur1 b_def word_le_def)
    also have "\<dots> = X' mod b" by (simp only: X' ds(2))
    also have "\<dots> = uint (drop_bit i A mod B)" by (simp add: uint_mod X'_def b_def)
    finally show "uint (if B \<le> r1 then r1 - B else r1) = uint (drop_bit i A mod B)" .
  qed
  define dw :: "64 word" where "dw = (if B \<le> r1 then 1 else 0)"
  have uK: "uint K = X div b" by (simp add: K_def uint_div X_def b_def)
  have "uint (drop_bit i A div B) = X' div b"
    by (simp only: uint_div X'_def b_def)
  also have "\<dots> = 2 * (X div b) + (if b \<le> 2 * (X mod b) + c then 1 else 0)"
    by (simp only: X' ds(1))
  also have "\<dots> = 2 * uint K + uint dw"
    by (simp add: uK dw_def le)
  finally have uK': "uint (drop_bit i A div B) = 2 * uint K + uint dw" .
  have "uint (2 * K + dw) = (2 * uint K + uint dw) mod 2 ^ 64"
    by (simp add: uint_word_ariths mod_simps)
  also have "\<dots> = uint (drop_bit i A div B) mod 2 ^ 64"
    by (simp only: uK')
  also have "\<dots> = uint (drop_bit i A div B)"
    using uint_lt2p [of "drop_bit i A div B"] by (intro mod_pos_pos_trivial) simp_all
  finally have "uint (drop_bit i A div B) = uint (2 * K + dw)" by simp
  then have K': "drop_bit i A div B = 2 * K + dw"
    by (rule word_uint_eqI)
  have Q': "push_bit i (drop_bit i A div B) = Q + push_bit i dw"
    by (simp add: K' push_bit_add Q K_def [symmetric] mult.commute)
  have "Q AND push_bit i 1 = 0"
    by (rule bit_word_eqI) (auto simp: Q bit_simps bit_0)
  then have "Q OR push_bit i 1 = Q + push_bit i 1"
    by (rule disjunctive_add_eq_or [symmetric])
  then show "(if B \<le> r1 then Q OR push_bit i 1 else Q) = push_bit i (drop_bit i A div B)"
    by (simp add: Q' dw_def del: push_bit_of_1)
qed

lemma to_ull_eq_0_iff: "UINT64_to_ull b = 0 \<longleftrightarrow> high b = 0 \<and> low b = 0"
proof -
  have "uint (UINT64_to_ull b) = 0 \<longleftrightarrow> uint (high b) = 0 \<and> uint (low b) = 0"
    using uint_ge_0 [of "high b"] uint_ge_0 [of "low b"]
    by (simp only: uint_to_ull) (auto simp: add_nonneg_eq_0_iff)
  then show ?thesis by (simp only: uint_0_iff)
qed

lemma to_ull_zero: "UINT64_to_ull (UINT64 0 0) = 0"
  by (simp add: UINT64_to_ull_def UINT64_def)

lemma div_loop_inv:
  assumes "UINT64_to_ull b \<noteq> 0" and "n \<le> 64"
    and "UINT64_to_ull r = drop_bit n (UINT64_to_ull a) mod UINT64_to_ull b"
    and "UINT64_to_ull q = push_bit n (drop_bit n (UINT64_to_ull a) div UINT64_to_ull b)"
  shows "UINT64_to_ull (fst (UINT64_div_loop n a b (q, r))) = UINT64_to_ull a div UINT64_to_ull b
       \<and> UINT64_to_ull (snd (UINT64_div_loop n a b (q, r))) = UINT64_to_ull a mod UINT64_to_ull b"
  using assms(2-)
proof (induction n arbitrary: q r)
  case 0
  then show ?case by simp
next
  case (Suc i)
  from Suc.prems(1) have i: "i < 64" by simp
  obtain q' r' where body: "UINT64_div_body i a b (q, r) = (q', r')"
    by (cases "UINT64_div_body i a b (q, r)")
  have "UINT64_to_ull r' = drop_bit i (UINT64_to_ull a) mod UINT64_to_ull b"
    using div_body_to_ull(1) [OF i, of a b q r]
      word_div_step(1) [OF assms(1) Suc.prems(2) Suc.prems(3)]
    by (simp only: body snd_conv)
  moreover have "UINT64_to_ull q' = push_bit i (drop_bit i (UINT64_to_ull a) div UINT64_to_ull b)"
    using div_body_to_ull(2) [OF i, of a b q r]
      word_div_step(2) [OF assms(1) Suc.prems(2) Suc.prems(3)]
    by (simp only: body fst_conv)
  ultimately show ?case
    using Suc.IH [of r' q'] i by (simp add: body)
qed

lemma mod_loop_inv:
  assumes "UINT64_to_ull b \<noteq> 0" and "n \<le> 64"
    and "UINT64_to_ull r = drop_bit n (UINT64_to_ull a) mod UINT64_to_ull b"
  shows "UINT64_to_ull (UINT64_mod_loop n a b r) = UINT64_to_ull a mod UINT64_to_ull b"
  using assms(2-)
proof (induction n arbitrary: r)
  case 0
  then show ?case by simp
next
  case (Suc i)
  from Suc.prems(1) have i: "i < 64" by simp
  have "UINT64_to_ull (UINT64_mod_body i a b r) = drop_bit i (UINT64_to_ull a) mod UINT64_to_ull b"
    using mod_body_to_ull [OF i, of a b r]
      word_div_step(1) [OF assms(1) Suc.prems(2) refl]
    by (simp only:)
  then show ?case
    using Suc.IH [of "UINT64_mod_body i a b r"] i by simp
qed


lemma to_ull_div_mod:
  "UINT64_to_ull b \<noteq> 0 \<Longrightarrow>
     UINT64_to_ull (UINT64_div a b) = UINT64_to_ull a div UINT64_to_ull b
     \<and> UINT64_to_ull (UINT64_mod a b) = UINT64_to_ull a mod UINT64_to_ull b"
proof -
  assume b: "UINT64_to_ull b \<noteq> 0"
  then have nz: "\<not> (high b = 0 \<and> low b = 0)"
    by (simp only: to_ull_eq_0_iff not_False_eq_True)
  have d: "UINT64_to_ull (fst (UINT64_div_loop 64 a b (UINT64 0 0, UINT64 0 0)))
      = UINT64_to_ull a div UINT64_to_ull b"
    using div_loop_inv [OF b, of 64 "UINT64 0 0" a "UINT64 0 0"] by (simp add: to_ull_zero)
  have m: "UINT64_to_ull (UINT64_mod_loop 64 a b (UINT64 0 0))
      = UINT64_to_ull a mod UINT64_to_ull b"
    using mod_loop_inv [OF b, of 64 "UINT64 0 0" a] by (simp add: to_ull_zero)
  show ?thesis
    unfolding UINT64_div_def UINT64_mod_def if_not_P [OF nz] using d m by simp
qed

text \<open>
  Claim C1. For all \<open>a\<close> and \<open>b\<close> with \<open>b \<noteq> 0\<close>, \<^verbatim>\<open>UINT64::operator/\<close> and
  \<^verbatim>\<open>UINT64::operator%\<close> return the unsigned 64-bit quotient and remainder of \<open>a\<close> by \<open>b\<close>.
\<close>

theorem UINT64_div_mod_native:
  "UINT64_to_ull b \<noteq> 0 \<Longrightarrow>
     UINT64_to_ull (UINT64_div a b) = UINT64_to_ull a div UINT64_to_ull b
     \<and> UINT64_to_ull (UINT64_mod a b) = UINT64_to_ull a mod UINT64_to_ull b"
  by (rule to_ull_div_mod)

theorem UINT64_div_mod_native_witness:
  "UINT64_to_ull (UINT64 0x80000000 1) \<noteq> 0
   \<and> UINT64_to_ull (UINT64_div (UINT64 0xFFFFFFFF 0xFFFFFFFF) (UINT64 0x80000000 1)) = 1
   \<and> UINT64_to_ull (UINT64_mod (UINT64 0xFFFFFFFF 0xFFFFFFFF) (UINT64 0x80000000 1)) = 0x7FFFFFFFFFFFFFFE"
proof -
  have h: "UINT64_to_ull (UINT64 0x80000000 1) \<noteq> 0"
    by (simp add: UINT64_to_ull_def UINT64_def)
  show ?thesis
    using h UINT64_div_mod_native [OF h, of "UINT64 0xFFFFFFFF 0xFFFFFFFF"]
    by (simp add: UINT64_to_ull_def UINT64_def)
qed

lemma UINT64_div_runs: "UINT64_div (UINT64 0xFFFFFFFF 0xFFFFFFFF) (UINT64 0x80000000 1) = UINT64 0 1"
  by code_simp

lemma UINT64_mod_runs: "UINT64_mod (UINT64 0xFFFFFFFF 0xFFFFFFFF) (UINT64 0x80000000 1) = UINT64 0x7FFFFFFF 0xFFFFFFFE"
  by code_simp

section \<open>Shift invariants\<close>

lemma drop_push_bit_word:
  "n < 64 \<Longrightarrow> drop_bit n (push_bit n w) = take_bit (64 - n) w" for w :: "64 word"
  by (rule bit_word_eqI) (auto simp: bit_simps)

lemma to_ull_inject: "UINT64_to_ull a = UINT64_to_ull b \<Longrightarrow> a = b"
proof -
  assume e: "UINT64_to_ull a = UINT64_to_ull b"
  have "low a = low b"
  proof (rule bit_word_eqI)
    fix n assume "n < LENGTH(32)"
    then show "bit (low a) n = bit (low b) n"
      using to_ull_bit [of a n] to_ull_bit [of b n] e by simp
  qed
  moreover have "high a = high b"
  proof (rule bit_word_eqI)
    fix n assume "n < LENGTH(32)"
    then show "bit (high a) n = bit (high b) n"
      using to_ull_bit [of a "n + 32"] to_ull_bit [of b "n + 32"] e by simp
  qed
  ultimately show ?thesis by simp
qed

lemma mask32: "(0xFFFFFFFF :: 64 word) = mask 32"
  by (simp add: mask_eq_exp_minus_1)

lemma to_ull_of_ull: "UINT64_to_ull (UINT64_of_ull w) = w"
  unfolding UINT64_of_ull_def mask32
  by (rule bit_word_eqI) (auto simp: to_ull_bit bit_simps)

text \<open>
  Claim C6. For every unsigned \<open>a\<close>: \<open>a << 0 = a\<close>; \<open>a << 64 = 0\<close>; and for
  \<open>0 \<le> s < 64\<close>, \<open>(a << s) >> s\<close> is \<open>a\<close> with its top \<open>s\<close> bits cleared, that is the
  low \<open>64 - s\<close> bits of \<open>a\<close>.
\<close>

theorem UINT64_shift_invariants:
  "UINT64_shl a 0 = a
   \<and> UINT64_shl a 64 = UINT64 0 0
   \<and> (0 \<le> s \<and> s < 64 \<longrightarrow>
        UINT64_to_ull (UINT64_shr (UINT64_shl a s) s) = take_bit (64 - nat s) (UINT64_to_ull a))"
  by (simp add: to_ull_shl to_ull_shr drop_push_bit_word nat_less_iff)
     (simp add: UINT64_shl_def)

theorem UINT64_shift_invariants_witness:
  "UINT64_shl (UINT64 0xFFFFFFFF 0xFFFFFFFF) 0 = UINT64 0xFFFFFFFF 0xFFFFFFFF
   \<and> UINT64_shl (UINT64 0xFFFFFFFF 0xFFFFFFFF) 64 = UINT64 0 0
   \<and> (0::int) \<le> 40 \<and> (40::int) < 64
   \<and> UINT64_to_ull (UINT64_shr (UINT64_shl (UINT64 0xFFFFFFFF 0xFFFFFFFF) 40) 40) = 0xFFFFFF"
  using UINT64_shift_invariants [of "UINT64 0xFFFFFFFF 0xFFFFFFFF" 40]
  by (simp add: UINT64_to_ull_def UINT64_def)


section \<open>Operators shared by the two variants\<close>

text \<open>
  \<open>INT64_to_UINT64\<close> (the conversion operator of \<open>INT64\<close>) keeps both words, so it reads
  the bit pattern of a signed value as an unsigned one.
\<close>

lemma sint32:
  fixes x :: "32 word"
  shows "sint x = (if x <s 0 then uint x - 2 ^ 32 else uint x)"
proof -
  have s: "sint x = (uint x + 2 ^ 31) mod 2 ^ 32 - 2 ^ 31"
    by (simp add: sint_uint signed_take_bit_eq_take_bit_shift take_bit_eq_mod)
  have b: "0 \<le> uint x" "uint x < 2 ^ 32" using uint_lt2p [of x] by simp_all
  show ?thesis
  proof (cases "uint x < 2 ^ 31")
    case True
    then have "(uint x + 2 ^ 31) mod 2 ^ 32 = uint x + 2 ^ 31"
      using b by (intro mod_pos_pos_trivial) simp_all
    then show ?thesis using True b by (simp add: word_sless_alt s)
  next
    case False
    have "uint x + 2 ^ 31 = uint x - 2 ^ 31 + 1 * 2 ^ 32"
      by simp
    then have "(uint x + 2 ^ 31) mod 2 ^ 32 = (uint x - 2 ^ 31 + 1 * 2 ^ 32) mod 2 ^ 32"
      by (simp only:)
    also have "\<dots> = (uint x - 2 ^ 31) mod 2 ^ 32"
      by (simp only: mod_mult_self1)
    also have "\<dots> = uint x - 2 ^ 31"
      using False b by (intro mod_pos_pos_trivial) simp_all
    finally show ?thesis using False b by (simp add: word_sless_alt s)
  qed
qed

lemma sless_same_sign:
  fixes x y :: "32 word"
  assumes "(x <s 0) = (y <s 0)"
  shows "(x <s y) = (x < y)"
  using assms by (auto simp: word_sless_alt [of x y] word_less_alt sint32)

lemma to_UINT64_sel [simp]:
  "low (INT64_to_UINT64 a) = ilow a" "high (INT64_to_UINT64 a) = ihigh a"
  by (simp_all add: INT64_to_UINT64_def UINT64_def)

lemma to_UINT64_INT64: "INT64_to_UINT64 (INT64 h l) = UINT64 h l"
  by (simp add: INT64_to_UINT64_def INT64_def)


text \<open>
  Claim C3, as stated: every operator other than multiplication, division and shift-right,
  the comparison operators included, gives the same result on the same bit patterns in both
  variants. The ordering comparisons do not: the macro that defines them compares the high
  words, which are signed in \<open>INT64\<close> and unsigned in \<open>UINT64\<close>. On the patterns
  \<open>0xFFFFFFFF00000000\<close> and \<open>0\<close> the signed \<open><\<close> holds and the unsigned one does not.
\<close>

theorem INT64_UINT64_ordering_differs:
  "INT64_lt (INT64 0xFFFFFFFF 0) (INT64 0 0)
   \<noteq> UINT64_lt (INT64_to_UINT64 (INT64 0xFFFFFFFF 0)) (INT64_to_UINT64 (INT64 0 0))"
  by (simp add: INT64_lt_def UINT64_lt_def INT64_to_UINT64_def INT64_def UINT64_def word_sless_alt)


lemma INT64_add_bits:
  "INT64_add a b = Some r \<Longrightarrow>
     INT64_to_UINT64 r = UINT64_add (INT64_to_UINT64 a) (INT64_to_UINT64 b)"
  by (auto simp: INT64_add_def UINT64_add_def Let_def INT32_add_def to_UINT64_INT64
      split: option.splits if_splits)

lemma INT64_sub_bits:
  "INT64_sub a b = Some r \<Longrightarrow>
     INT64_to_UINT64 r = UINT64_sub (INT64_to_UINT64 a) (INT64_to_UINT64 b)"
  by (auto simp: INT64_sub_def UINT64_sub_def Let_def INT32_sub_def to_UINT64_INT64
      split: option.splits if_splits)

lemma INT64_pre_inc_bits:
  "INT64_pre_inc a = Some r \<Longrightarrow> INT64_to_UINT64 r = UINT64_pre_inc (INT64_to_UINT64 a)"
  by (auto simp: INT64_pre_inc_def UINT64_pre_inc_def Let_def INT32_add_def INT64_to_UINT64_def
      UINT64_def split: option.splits if_splits)

lemma INT64_pre_dec_bits:
  "INT64_pre_dec a = Some r \<Longrightarrow> INT64_to_UINT64 r = UINT64_pre_dec (INT64_to_UINT64 a)"
  by (auto simp: INT64_pre_dec_def UINT64_pre_dec_def Let_def INT32_sub_def INT64_to_UINT64_def
      UINT64_def split: option.splits if_splits)

lemma INT64_post_inc_bits:
  "INT64_post_inc a = Some p \<Longrightarrow>
     map_prod INT64_to_UINT64 INT64_to_UINT64 p = UINT64_post_inc (INT64_to_UINT64 a)"
  by (auto simp: INT64_post_inc_def UINT64_post_inc_def Let_def INT64_pre_inc_bits
      split: option.splits)

lemma INT64_post_dec_bits:
  "INT64_post_dec a = Some p \<Longrightarrow>
     map_prod INT64_to_UINT64 INT64_to_UINT64 p = UINT64_post_dec (INT64_to_UINT64 a)"
  by (auto simp: INT64_post_dec_def UINT64_post_dec_def Let_def INT64_pre_dec_bits
      split: option.splits)


text \<open>
  Claim C3, amended: the bitwise operators, \<open><<\<close>, \<open>==\<close> and \<open>!=\<close> give the same bit
  pattern (or truth value) in both variants on the same bit patterns; so do \<open>+\<close>, \<open>-\<close>,
  increment and decrement on every input on which the operator of \<open>INT64\<close> has a defined
  result, that is when its signed 32-bit arithmetic on the high word does not overflow;
  \<open><\<close>, \<open><=\<close>, \<open>>\<close> and \<open>>=\<close> agree whenever the two high words have the same sign bit.
\<close>

theorem INT64_UINT64_shared_operators:
  "(INT64_add a b = Some r1 \<longrightarrow>
      INT64_to_UINT64 r1 = UINT64_add (INT64_to_UINT64 a) (INT64_to_UINT64 b))
   \<and> (INT64_sub a b = Some r2 \<longrightarrow>
      INT64_to_UINT64 r2 = UINT64_sub (INT64_to_UINT64 a) (INT64_to_UINT64 b))
   \<and> (INT64_pre_inc a = Some r3 \<longrightarrow> INT64_to_UINT64 r3 = UINT64_pre_inc (INT64_to_UINT64 a))
   \<and> (INT64_pre_dec a = Some r4 \<longrightarrow> INT64_to_UINT64 r4 = UINT64_pre_dec (INT64_to_UINT64 a))
   \<and> (INT64_post_inc a = Some p1 \<longrightarrow>
      map_prod INT64_to_UINT64 INT64_to_UINT64 p1 = UINT64_post_inc (INT64_to_UINT64 a))
   \<and> (INT64_post_dec a = Some p2 \<longrightarrow>
      map_prod INT64_to_UINT64 INT64_to_UINT64 p2 = UINT64_post_dec (INT64_to_UINT64 a))
   \<and> INT64_to_UINT64 (INT64_and a b) = UINT64_and (INT64_to_UINT64 a) (INT64_to_UINT64 b)
   \<and> INT64_to_UINT64 (INT64_or a b) = UINT64_or (INT64_to_UINT64 a) (INT64_to_UINT64 b)
   \<and> INT64_to_UINT64 (INT64_xor a b) = UINT64_xor (INT64_to_UINT64 a) (INT64_to_UINT64 b)
   \<and> INT64_to_UINT64 (INT64_not a) = UINT64_not (INT64_to_UINT64 a)
   \<and> INT64_to_UINT64 (INT64_shl a s) = UINT64_shl (INT64_to_UINT64 a) s
   \<and> INT64_eq a b = UINT64_eq (INT64_to_UINT64 a) (INT64_to_UINT64 b)
   \<and> INT64_ne a b = UINT64_ne (INT64_to_UINT64 a) (INT64_to_UINT64 b)
   \<and> ((ihigh a <s 0) = (ihigh b <s 0) \<longrightarrow>
        INT64_lt a b = UINT64_lt (INT64_to_UINT64 a) (INT64_to_UINT64 b)
      \<and> INT64_le a b = UINT64_le (INT64_to_UINT64 a) (INT64_to_UINT64 b)
      \<and> INT64_gt a b = UINT64_gt (INT64_to_UINT64 a) (INT64_to_UINT64 b)
      \<and> INT64_ge a b = UINT64_ge (INT64_to_UINT64 a) (INT64_to_UINT64 b))"
proof -
  have bitw: "INT64_to_UINT64 (INT64_and a b) = UINT64_and (INT64_to_UINT64 a) (INT64_to_UINT64 b)"
    "INT64_to_UINT64 (INT64_or a b) = UINT64_or (INT64_to_UINT64 a) (INT64_to_UINT64 b)"
    "INT64_to_UINT64 (INT64_xor a b) = UINT64_xor (INT64_to_UINT64 a) (INT64_to_UINT64 b)"
    "INT64_to_UINT64 (INT64_not a) = UINT64_not (INT64_to_UINT64 a)"
    by (simp_all add: INT64_and_def INT64_or_def INT64_xor_def INT64_not_def
        UINT64_and_def UINT64_or_def UINT64_xor_def UINT64_not_def to_UINT64_INT64)
  have shl: "INT64_to_UINT64 (INT64_shl a s) = UINT64_shl (INT64_to_UINT64 a) s"
    by (simp add: INT64_shl_def UINT64_shl_def to_UINT64_INT64)
  have eq: "INT64_eq a b = UINT64_eq (INT64_to_UINT64 a) (INT64_to_UINT64 b)"
    "INT64_ne a b = UINT64_ne (INT64_to_UINT64 a) (INT64_to_UINT64 b)"
    by (simp_all add: INT64_eq_def INT64_ne_def UINT64_eq_def UINT64_ne_def)
  have ord: "INT64_lt a b = UINT64_lt (INT64_to_UINT64 a) (INT64_to_UINT64 b)
      \<and> INT64_le a b = UINT64_le (INT64_to_UINT64 a) (INT64_to_UINT64 b)
      \<and> INT64_gt a b = UINT64_gt (INT64_to_UINT64 a) (INT64_to_UINT64 b)
      \<and> INT64_ge a b = UINT64_ge (INT64_to_UINT64 a) (INT64_to_UINT64 b)"
    if "(ihigh a <s 0) = (ihigh b <s 0)"
    using sless_same_sign [OF that] sless_same_sign [OF that [symmetric]]
    by (simp add: INT64_lt_def INT64_le_def INT64_gt_def INT64_ge_def
        UINT64_lt_def UINT64_le_def UINT64_gt_def UINT64_ge_def)
  show ?thesis
    using INT64_add_bits [of a b r1] INT64_sub_bits [of a b r2] INT64_pre_inc_bits [of a r3]
      INT64_pre_dec_bits [of a r4] INT64_post_inc_bits [of a p1] INT64_post_dec_bits [of a p2]
      bitw shl eq ord
    by blast
qed

theorem INT64_UINT64_shared_operators_witness:
  "INT64_add (INT64 0xFFFFFFFF 0xFFFFFFFF) (INT64 0xFFFFFFFE 0xFFFFFFFE) = Some (INT64 0xFFFFFFFE 0xFFFFFFFD)
   \<and> INT64_to_UINT64 (INT64 0xFFFFFFFE 0xFFFFFFFD)
       = UINT64_add (INT64_to_UINT64 (INT64 0xFFFFFFFF 0xFFFFFFFF)) (INT64_to_UINT64 (INT64 0xFFFFFFFE 0xFFFFFFFE))
   \<and> INT64_sub (INT64 0xFFFFFFFF 0xFFFFFFFF) (INT64 0xFFFFFFFE 0xFFFFFFFE) = Some (INT64 1 1)
   \<and> INT64_to_UINT64 (INT64 1 1)
       = UINT64_sub (INT64_to_UINT64 (INT64 0xFFFFFFFF 0xFFFFFFFF)) (INT64_to_UINT64 (INT64 0xFFFFFFFE 0xFFFFFFFE))
   \<and> INT64_pre_inc (INT64 0xFFFFFFFF 0xFFFFFFFF) = Some (INT64 0 0)
   \<and> INT64_to_UINT64 (INT64 0 0) = UINT64_pre_inc (INT64_to_UINT64 (INT64 0xFFFFFFFF 0xFFFFFFFF))
   \<and> INT64_pre_dec (INT64 0xFFFFFFFF 0xFFFFFFFF) = Some (INT64 0xFFFFFFFF 0xFFFFFFFE)
   \<and> INT64_to_UINT64 (INT64 0xFFFFFFFF 0xFFFFFFFE) = UINT64_pre_dec (INT64_to_UINT64 (INT64 0xFFFFFFFF 0xFFFFFFFF))
   \<and> INT64_post_inc (INT64 0xFFFFFFFF 0xFFFFFFFF) = Some (INT64 0xFFFFFFFF 0xFFFFFFFF, INT64 0 0)
   \<and> map_prod INT64_to_UINT64 INT64_to_UINT64 (INT64 0xFFFFFFFF 0xFFFFFFFF, INT64 0 0)
       = UINT64_post_inc (INT64_to_UINT64 (INT64 0xFFFFFFFF 0xFFFFFFFF))
   \<and> INT64_post_dec (INT64 0xFFFFFFFF 0xFFFFFFFF) = Some (INT64 0xFFFFFFFF 0xFFFFFFFF, INT64 0xFFFFFFFF 0xFFFFFFFE)
   \<and> map_prod INT64_to_UINT64 INT64_to_UINT64 (INT64 0xFFFFFFFF 0xFFFFFFFF, INT64 0xFFFFFFFF 0xFFFFFFFE)
       = UINT64_post_dec (INT64_to_UINT64 (INT64 0xFFFFFFFF 0xFFFFFFFF))
   \<and> ((ihigh (INT64 0xFFFFFFFF 0xFFFFFFFF) <s 0) = (ihigh (INT64 0xFFFFFFFE 0xFFFFFFFE) <s 0))
   \<and> INT64_lt (INT64 0xFFFFFFFF 0xFFFFFFFF) (INT64 0xFFFFFFFE 0xFFFFFFFE)
       = UINT64_lt (INT64_to_UINT64 (INT64 0xFFFFFFFF 0xFFFFFFFF)) (INT64_to_UINT64 (INT64 0xFFFFFFFE 0xFFFFFFFE))"
proof -
  have add: "INT64_add (INT64 0xFFFFFFFF 0xFFFFFFFF) (INT64 0xFFFFFFFE 0xFFFFFFFE) = Some (INT64 0xFFFFFFFE 0xFFFFFFFD)"
    by (simp add: INT64_add_def INT32_add_def INT32_in_range_def INT64_def Let_def)
  have sub: "INT64_sub (INT64 0xFFFFFFFF 0xFFFFFFFF) (INT64 0xFFFFFFFE 0xFFFFFFFE) = Some (INT64 1 1)"
    by (simp add: INT64_sub_def INT32_sub_def INT32_in_range_def INT64_def Let_def)
  have inc: "INT64_pre_inc (INT64 0xFFFFFFFF 0xFFFFFFFF) = Some (INT64 0 0)"
    by (simp add: INT64_pre_inc_def INT32_add_def INT32_in_range_def INT64_def Let_def)
  have dec: "INT64_pre_dec (INT64 0xFFFFFFFF 0xFFFFFFFF) = Some (INT64 0xFFFFFFFF 0xFFFFFFFE)"
    by (simp add: INT64_pre_dec_def INT64_def Let_def)
  have pinc: "INT64_post_inc (INT64 0xFFFFFFFF 0xFFFFFFFF) = Some (INT64 0xFFFFFFFF 0xFFFFFFFF, INT64 0 0)"
    by (simp add: INT64_post_inc_def inc Let_def)
  have pdec: "INT64_post_dec (INT64 0xFFFFFFFF 0xFFFFFFFF) = Some (INT64 0xFFFFFFFF 0xFFFFFFFF, INT64 0xFFFFFFFF 0xFFFFFFFE)"
    by (simp add: INT64_post_dec_def dec Let_def)
  have h: "(ihigh (INT64 0xFFFFFFFF 0xFFFFFFFF) <s 0) = (ihigh (INT64 0xFFFFFFFE 0xFFFFFFFE) <s 0)"
    by (simp add: INT64_def word_sless_alt)
  show ?thesis
    using INT64_UINT64_shared_operators [of "INT64 0xFFFFFFFF 0xFFFFFFFF" "INT64 0xFFFFFFFE 0xFFFFFFFE"
        "INT64 0xFFFFFFFE 0xFFFFFFFD" "INT64 1 1" "INT64 0 0" "INT64 0xFFFFFFFF 0xFFFFFFFE"
        "(INT64 0xFFFFFFFF 0xFFFFFFFF, INT64 0 0)" "(INT64 0xFFFFFFFF 0xFFFFFFFF, INT64 0xFFFFFFFF 0xFFFFFFFE)" 0]
      add sub inc dec pinc pdec h
    by (simp only: simp_thms)
qed

section \<open>Multiplication by 16-bit limbs\<close>

lemma mask16: "(0xFFFF :: 32 word) = mask 16"
  by (simp add: mask_eq_exp_minus_1)

lemma uint_lo16: "uint (x AND 0xFFFF) = uint x mod 2 ^ 16" for x :: "32 word"
  unfolding mask16
  by (simp add: take_bit_eq_mask [symmetric] unsigned_take_bit_eq take_bit_eq_mod uint_mod)

lemma uint_hi16: "uint (drop_bit 16 x) = uint x div 2 ^ 16" for x :: "32 word"
  by (rule uint_drop_bit)

lemma uint_hi16_bound: "uint x div 2 ^ 16 < 2 ^ 16" for x :: "32 word"
  using uint_lt2p [of x] by simp

lemma uint_mul16:
  fixes x y :: "32 word"
  assumes "uint x < 2 ^ 16" "uint y < 2 ^ 16"
  shows "uint (x * y) = uint x * uint y"
proof -
  have "uint x * uint y \<le> (2 ^ 16 - 1) * (2 ^ 16 - 1)"
    using assms by (intro mult_mono) simp_all
  then have "uint x * uint y < 2 ^ 32" by simp
  then show ?thesis
    by (simp add: uint_word_ariths mod_pos_pos_trivial)
qed

lemma uint_add32:
  fixes x y :: "32 word"
  assumes "uint x + uint y < 2 ^ 32"
  shows "uint (x + y) = uint x + uint y"
  using assms by (simp add: uint_word_ariths mod_pos_pos_trivial)

lemma uint_or16:
  fixes r s :: "32 word"
  assumes "uint r < 2 ^ 16" "uint s < 2 ^ 16"
  shows "uint (r OR push_bit 16 s) = uint r + uint s * 2 ^ 16"
proof -
  have "uint (take_bit 16 r) = uint r"
    using assms(1) by (simp add: take_bit_eq_mod uint_mod mod_pos_pos_trivial)
  then have r: "r = take_bit 16 r"
    by (simp add: word_uint_eqI)
  have "r AND push_bit 16 s = 0"
    by (subst r, rule bit_word_eqI) (auto simp: bit_simps)
  then have "r OR push_bit 16 s = r + s * 2 ^ 16"
    by (simp add: disjunctive_add_eq_or [symmetric] push_bit_eq_mult)
  moreover have "uint s * 2 ^ 16 \<le> (2 ^ 16 - 1) * 2 ^ 16"
    using assms(2) by (intro mult_right_mono) simp_all
  ultimately show ?thesis
    using assms(1) by (simp add: uint_word_ariths mod_pos_pos_trivial)
qed

lemma limb_identity:
  fixes K :: int
  shows "(a0 + a1 * K + a2 * K ^ 2 + a3 * K ^ 3) * (b0 + b1 * K + b2 * K ^ 2 + b3 * K ^ 3)
    = (a0 * b0 - h0 * K)
      + (h0 + (a1 * b0 - h1 * K) + (a0 * b1 - h2 * K) - c1 * K) * K
      + (c1 + h1 + h2 + (a2 * b0 - h3 * K) + (a1 * b1 - h4 * K) + (a0 * b2 - h5 * K) - c2 * K) * K ^ 2
      + (c2 + h3 + h4 + h5 + (a3 * b0 - h6 * K) + (a2 * b1 - h7 * K) + (a1 * b2 - h8 * K)
           + (a0 * b3 - h9 * K) - c3 * K) * K ^ 3
      + (c3 + h6 + h7 + h8 + h9 + a1 * b3 + a2 * b2 + a3 * b1
           + (a2 * b3 + a3 * b2) * K + a3 * b3 * K ^ 2) * K ^ 4"
  by (simp add: algebra_simps power2_eq_square power3_eq_cube power4_eq_xxxx)

lemma limb_sum:
  fixes K :: int
  assumes "r0 = a0 * b0 - h0 * K"
    and "s1 = h0 + (a1 * b0 - h1 * K) + (a0 * b1 - h2 * K)"
    and "r1 = s1 - c1 * K"
    and "s2 = c1 + h1 + h2 + (a2 * b0 - h3 * K) + (a1 * b1 - h4 * K) + (a0 * b2 - h5 * K)"
    and "r2 = s2 - c2 * K"
    and "s3 = c2 + h3 + h4 + h5 + (a3 * b0 - h6 * K) + (a2 * b1 - h7 * K) + (a1 * b2 - h8 * K)
           + (a0 * b3 - h9 * K)"
    and "r3 = s3 - c3 * K"
  shows "\<exists>D. (a0 + a1 * K + a2 * K ^ 2 + a3 * K ^ 3) * (b0 + b1 * K + b2 * K ^ 2 + b3 * K ^ 3)
    = r0 + r1 * K + r2 * K ^ 2 + r3 * K ^ 3 + D * K ^ 4"
  unfolding assms
  by (rule exI, rule limb_identity)

lemma lo16_bound: "uint (x AND 0xFFFF) < 65536" for x :: "32 word"
  by (simp add: uint_lo16)

lemma hi16_bound: "uint (drop_bit 16 x) < 65536" for x :: "32 word"
  using uint_hi16_bound [of x] by (simp add: uint_hi16)

lemma mod_as_diff: "x mod K = x - x div K * K" for x K :: int
  by (simp add: minus_div_mult_eq_mod)

lemma split16: "uint x = uint (x AND 0xFFFF) + uint (drop_bit 16 x) * 65536" for x :: "32 word"
  by (simp add: uint_lo16 uint_hi16)

lemma to_ull_mul: "UINT64_to_ull (UINT64_mul a b) = UINT64_to_ull a * UINT64_to_ull b"
proof -
  define a0 a1 a2 a3 where "a0 = low a AND 0xFFFF" and "a1 = drop_bit 16 (low a)"
    and "a2 = high a AND 0xFFFF" and "a3 = drop_bit 16 (high a)"
  define b0 b1 b2 b3 where "b0 = low b AND 0xFFFF" and "b1 = drop_bit 16 (low b)"
    and "b2 = high b AND 0xFFFF" and "b3 = drop_bit 16 (high b)"
  define p0 p1 p2 p3 p4 where "p0 = a0 * b0" and "p1 = a1 * b0" and "p2 = a0 * b1"
    and "p3 = a2 * b0" and "p4 = a1 * b1"
  define p5 p6 p7 p8 p9 where "p5 = a0 * b2" and "p6 = a3 * b0" and "p7 = a2 * b1"
    and "p8 = a1 * b2" and "p9 = a0 * b3"
  define r0 where "r0 = p0 AND 0xFFFF"
  define sum1 where "sum1 = drop_bit 16 p0 + (p1 AND 0xFFFF) + (p2 AND 0xFFFF)"
  define r1 where "r1 = sum1 AND 0xFFFF"
  define sum2 where "sum2 = drop_bit 16 sum1 + drop_bit 16 p1 + drop_bit 16 p2
                   + (p3 AND 0xFFFF) + (p4 AND 0xFFFF) + (p5 AND 0xFFFF)"
  define r2 where "r2 = sum2 AND 0xFFFF"
  define sum3 where "sum3 = drop_bit 16 sum2 + drop_bit 16 p3 + drop_bit 16 p4 + drop_bit 16 p5
                   + (p6 AND 0xFFFF) + (p7 AND 0xFFFF) + (p8 AND 0xFFFF) + (p9 AND 0xFFFF)"
  define r3 where "r3 = sum3 AND 0xFFFF"
  have mul: "UINT64_mul a b = UINT64 (r2 OR push_bit 16 r3) (r0 OR push_bit 16 r1)"
    unfolding UINT64_mul_def Let_def r3_def sum3_def r2_def sum2_def r1_def sum1_def r0_def
      p0_def p1_def p2_def p3_def p4_def p5_def p6_def p7_def p8_def p9_def
      a0_def a1_def a2_def a3_def b0_def b1_def b2_def b3_def ..
  have ab: "uint a0 < 2 ^ 16" "uint a1 < 2 ^ 16" "uint a2 < 2 ^ 16" "uint a3 < 2 ^ 16"
    "uint b0 < 2 ^ 16" "uint b1 < 2 ^ 16" "uint b2 < 2 ^ 16" "uint b3 < 2 ^ 16"
    unfolding a0_def a1_def a2_def a3_def b0_def b1_def b2_def b3_def
    using lo16_bound hi16_bound by simp_all
  have p: "uint p0 = uint a0 * uint b0" "uint p1 = uint a1 * uint b0" "uint p2 = uint a0 * uint b1"
    "uint p3 = uint a2 * uint b0" "uint p4 = uint a1 * uint b1" "uint p5 = uint a0 * uint b2"
    "uint p6 = uint a3 * uint b0" "uint p7 = uint a2 * uint b1" "uint p8 = uint a1 * uint b2"
    "uint p9 = uint a0 * uint b3"
    unfolding p0_def p1_def p2_def p3_def p4_def p5_def p6_def p7_def p8_def p9_def
    by (simp_all only: uint_mul16 ab)
  have s1: "uint sum1 = uint (drop_bit 16 p0) + uint (p1 AND 0xFFFF) + uint (p2 AND 0xFFFF)"
    unfolding sum1_def
    using hi16_bound [of p0] lo16_bound [of p1] lo16_bound [of p2]
    by (simp add: uint_add32)
  have s2: "uint sum2 = uint (drop_bit 16 sum1) + uint (drop_bit 16 p1) + uint (drop_bit 16 p2)
      + uint (p3 AND 0xFFFF) + uint (p4 AND 0xFFFF) + uint (p5 AND 0xFFFF)"
    unfolding sum2_def
    using hi16_bound [of sum1] hi16_bound [of p1] hi16_bound [of p2]
      lo16_bound [of p3] lo16_bound [of p4] lo16_bound [of p5]
    by (simp add: uint_add32)
  have s3: "uint sum3 = uint (drop_bit 16 sum2) + uint (drop_bit 16 p3) + uint (drop_bit 16 p4)
      + uint (drop_bit 16 p5) + uint (p6 AND 0xFFFF) + uint (p7 AND 0xFFFF)
      + uint (p8 AND 0xFFFF) + uint (p9 AND 0xFFFF)"
    unfolding sum3_def
    using hi16_bound [of sum2] hi16_bound [of p3] hi16_bound [of p4] hi16_bound [of p5]
      lo16_bound [of p6] lo16_bound [of p7] lo16_bound [of p8] lo16_bound [of p9]
    by (simp add: uint_add32)
  define K :: int where "K = 65536"
  have lo: "uint (x AND 0xFFFF) = uint x - uint x div K * K" for x :: "32 word"
    by (simp add: uint_lo16 K_def mod_as_diff)
  have hi: "uint (drop_bit 16 x) = uint x div K" for x :: "32 word"
    by (simp add: uint_hi16 K_def)
  obtain D where D: "(uint a0 + uint a1 * K + uint a2 * K ^ 2 + uint a3 * K ^ 3)
      * (uint b0 + uint b1 * K + uint b2 * K ^ 2 + uint b3 * K ^ 3)
    = uint r0 + uint r1 * K + uint r2 * K ^ 2 + uint r3 * K ^ 3 + D * K ^ 4"
    using limb_sum [where K = K
        and ?a0.0 = "uint a0" and ?a1.0 = "uint a1" and ?a2.0 = "uint a2" and ?a3.0 = "uint a3"
        and ?b0.0 = "uint b0" and ?b1.0 = "uint b1" and ?b2.0 = "uint b2" and ?b3.0 = "uint b3"
        and ?h0.0 = "uint p0 div K" and ?h1.0 = "uint p1 div K" and ?h2.0 = "uint p2 div K"
        and ?h3.0 = "uint p3 div K" and ?h4.0 = "uint p4 div K" and ?h5.0 = "uint p5 div K"
        and ?h6.0 = "uint p6 div K" and ?h7.0 = "uint p7 div K" and ?h8.0 = "uint p8 div K"
        and ?h9.0 = "uint p9 div K"
        and ?c1.0 = "uint sum1 div K" and ?c2.0 = "uint sum2 div K" and ?c3.0 = "uint sum3 div K"
        and ?r0.0 = "uint r0" and ?r1.0 = "uint r1" and ?r2.0 = "uint r2" and ?r3.0 = "uint r3"
        and ?s1.0 = "uint sum1" and ?s2.0 = "uint sum2" and ?s3.0 = "uint sum3"]
    unfolding r0_def r1_def r2_def r3_def s1 s2 s3 lo hi p
    by blast
  have rb: "uint r0 < 2 ^ 16" "uint r1 < 2 ^ 16" "uint r2 < 2 ^ 16" "uint r3 < 2 ^ 16"
    unfolding r0_def r1_def r2_def r3_def using lo16_bound by simp_all
  have res: "UINT64_to_ull (UINT64_mul a b)
      = word_of_int (uint r0 + uint r1 * K + uint r2 * K ^ 2 + uint r3 * K ^ 3)"
    unfolding mul to_ull_UINT64 uint_or16 [OF rb(3) rb(4)] uint_or16 [OF rb(1) rb(2)]
    by (simp add: K_def algebra_simps)
  have va: "uint (UINT64_to_ull a) = uint a0 + uint a1 * K + uint a2 * K ^ 2 + uint a3 * K ^ 3"
    unfolding uint_to_ull a0_def a1_def a2_def a3_def
    using split16 [of "low a"] split16 [of "high a"] by (simp add: K_def)
  have vb: "uint (UINT64_to_ull b) = uint b0 + uint b1 * K + uint b2 * K ^ 2 + uint b3 * K ^ 3"
    unfolding uint_to_ull b0_def b1_def b2_def b3_def
    using split16 [of "low b"] split16 [of "high b"] by (simp add: K_def)
  have K4: "K ^ 4 = 2 ^ 64" by (simp add: K_def)
  have "UINT64_to_ull a * UINT64_to_ull b
      = word_of_int (uint (UINT64_to_ull a) * uint (UINT64_to_ull b))"
    by simp
  also have "\<dots> = word_of_int (uint r0 + uint r1 * K + uint r2 * K ^ 2 + uint r3 * K ^ 3
      + D * 2 ^ 64)"
    unfolding va vb D K4 ..
  also have "\<dots> = word_of_int (uint r0 + uint r1 * K + uint r2 * K ^ 2 + uint r3 * K ^ 3)"
    unfolding word_of_int_eq_iff take_bit_eq_mod by simp
  finally show ?thesis
    by (simp only: res)
qed

text \<open>
  Claim C5. For all \<open>a\<close> and \<open>b\<close>, \<^verbatim>\<open>UINT64::operator*\<close> returns the product
  \<open>a * b\<close> modulo \<open>2^64\<close>.
\<close>

theorem UINT64_mul_native:
  "UINT64_to_ull (UINT64_mul a b) = UINT64_to_ull a * UINT64_to_ull b
   \<and> unat (UINT64_to_ull (UINT64_mul a b))
       = (unat (UINT64_to_ull a) * unat (UINT64_to_ull b)) mod 2 ^ 64"
  by (simp add: to_ull_mul unat_word_ariths)

section \<open>Signed division\<close>

text \<open>
  The unary minus of \<open>INT64\<close> is \<open>0 - x\<close> on the signed high word: it has a defined result
  exactly when the high word is not \<open>0x80000000\<close> (\<open>INT64_neg_defined_iff\<close>). Signed division
  by a non-zero divisor negates each negative operand, so it has a defined result exactly when
  neither high word is \<open>0x80000000\<close> (\<open>INT64_div_defined_iff\<close>); the quotient is then the
  truncating one, the remainder is its signed remainder, and \<open>(a / b) * b + (a % b)\<close> is
  defined and equal to \<open>a\<close> (\<open>INT64_div_mod_defined\<close>).
\<close>

lemma to_sll_eq: "INT64_to_sll x = UINT64_to_ull (INT64_to_UINT64 x)"
  unfolding INT64_to_sll_def UINT64_to_ull_def
  by (rule bit_word_eqI) (auto simp: bit_simps)

lemma to_UINT64_inject: "INT64_to_UINT64 x = INT64_to_UINT64 y \<Longrightarrow> x = y"
proof -
  assume "INT64_to_UINT64 x = INT64_to_UINT64 y"
  then have "ilow x = ilow y \<and> ihigh x = ihigh y"
    by (simp add: INT64_to_UINT64_def UINT64_def)
  then show ?thesis by simp
qed

lemma to_sll_inject: "INT64_to_sll x = INT64_to_sll y \<Longrightarrow> x = y"
  unfolding to_sll_eq by (rule to_UINT64_inject, rule to_ull_inject)

lemma to_sll_zero: "INT64_to_sll (INT64 0 0) = 0"
  by (simp add: INT64_to_sll_def INT64_def)

lemma to_sll_mul: "INT64_to_sll (INT64_mul x y) = INT64_to_sll x * INT64_to_sll y"
proof -
  have "INT64_to_UINT64 (INT64_mul x y) = UINT64_mul (INT64_to_UINT64 x) (INT64_to_UINT64 y)"
    by (simp add: INT64_mul_def Let_def to_UINT64_INT64 INT64_to_UINT64_def [of x]
        INT64_to_UINT64_def [of y]) (simp add: UINT64_def)
  then show ?thesis
    by (simp add: to_sll_eq to_ull_mul)
qed

lemma to_sll_eq_0_iff: "INT64_to_sll x = 0 \<longleftrightarrow> ihigh x = 0 \<and> ilow x = 0"
  by (simp add: to_sll_eq to_ull_eq_0_iff)

lemma ihigh_neg_iff: "ihigh x <s 0 \<longleftrightarrow> sint (INT64_to_sll x) < 0"
proof -
  have "ihigh x <s 0 \<longleftrightarrow> bit (ihigh x) 31"
    using bit_last_iff [of "ihigh x"] by (simp add: word_sless_alt)
  also have "\<dots> \<longleftrightarrow> bit (INT64_to_sll x) 63"
    by (simp add: to_sll_eq to_ull_bit)
  also have "\<dots> \<longleftrightarrow> sint (INT64_to_sll x) < 0"
    using bit_last_iff [of "INT64_to_sll x"] by simp
  finally show ?thesis .
qed

lemma sint64:
  fixes x :: "64 word"
  shows "sint x = (if sint x < 0 then uint x - 2 ^ 64 else uint x)"
proof -
  have s: "sint x = (uint x + 2 ^ 63) mod 2 ^ 64 - 2 ^ 63"
    by (simp add: sint_uint signed_take_bit_eq_take_bit_shift take_bit_eq_mod)
  have b: "0 \<le> uint x" "uint x < 2 ^ 64" using uint_lt2p [of x] by simp_all
  show ?thesis
  proof (cases "uint x < 2 ^ 63")
    case True
    then have "(uint x + 2 ^ 63) mod 2 ^ 64 = uint x + 2 ^ 63"
      using b by (intro mod_pos_pos_trivial) simp_all
    then show ?thesis using True b by (simp add: s)
  next
    case False
    have "uint x + 2 ^ 63 = uint x - 2 ^ 63 + 1 * 2 ^ 64"
      by simp
    then have "(uint x + 2 ^ 63) mod 2 ^ 64 = (uint x - 2 ^ 63 + 1 * 2 ^ 64) mod 2 ^ 64"
      by (simp only:)
    also have "\<dots> = (uint x - 2 ^ 63) mod 2 ^ 64"
      by (simp only: mod_mult_self1)
    also have "\<dots> = uint x - 2 ^ 63"
      using False b by (intro mod_pos_pos_trivial) simp_all
    finally show ?thesis using False b by (simp add: s)
  qed
qed

lemma uint_abs64:
  fixes A :: "64 word"
  shows "uint (if sint A < 0 then - A else A) = \<bar>sint A\<bar>"
proof (cases "sint A < 0")
  case True
  then have sA: "sint A = uint A - 2 ^ 64" using sint64 [of A] by simp
  have b: "0 \<le> uint A" "uint A < 2 ^ 64" using uint_lt2p [of A] by simp_all
  have pos: "0 < uint A" using True sA b sint_ge [of A] by simp
  have "- uint A = (2 ^ 64 - uint A) + (- 1) * 2 ^ 64" by simp
  then have "(- uint A) mod 2 ^ 64 = ((2 ^ 64 - uint A) + (- 1) * 2 ^ 64) mod 2 ^ 64"
    by (simp only:)
  also have "\<dots> = (2 ^ 64 - uint A) mod 2 ^ 64"
    by (simp only: mod_mult_self1)
  also have "\<dots> = 2 ^ 64 - uint A"
    using pos b by (intro mod_pos_pos_trivial) simp_all
  finally have "uint (- A) = 2 ^ 64 - uint A"
    by (simp add: uint_word_ariths)
  then show ?thesis using True sA by simp
next
  case False
  then show ?thesis using sint64 [of A] by simp
qed

lemma sdiv_word64:
  fixes A B :: "64 word"
  assumes "B \<noteq> 0"
  defines "absA \<equiv> (if sint A < 0 then - A else A)"
    and "absB \<equiv> (if sint B < 0 then - B else B)"
  shows "(if (sint A < 0) \<noteq> (sint B < 0) then - (absA div absB) else absA div absB)
     = word_of_int (sint A sdiv sint B)"
proof -
  have sB: "sint B \<noteq> 0" using assms(1) by (simp add: signed_eq_0_iff)
  have uQ: "uint (absA div absB) = \<bar>sint A\<bar> div \<bar>sint B\<bar>"
    unfolding absA_def absB_def uint_div uint_abs64 ..
  have Q: "absA div absB = word_of_int (\<bar>sint A\<bar> div \<bar>sint B\<bar>)"
    using uQ by (metis word_of_int_uint)
  show ?thesis
  proof (cases "sint A = 0")
    case True
    then show ?thesis by (simp add: Q)
  next
    case False
    then show ?thesis
      using sB by (auto simp: Q signed_divide_int_def sgn_if)
  qed
qed

lemma sdiv_range:
  fixes k l :: int
  assumes k: "- (2 ^ 63) \<le> k" "k < 2 ^ 63" and l: "l \<noteq> 0"
    and ov: "\<not> (k = - (2 ^ 63) \<and> l = - 1)"
  shows "- (2 ^ 63) \<le> k sdiv l \<and> k sdiv l < 2 ^ 63"
proof -
  consider "l = 1" | "l = - 1" | "2 \<le> \<bar>l\<bar>" using l by linarith
  then show ?thesis
  proof cases
    case 1
    then show ?thesis using k by simp
  next
    case 2
    then show ?thesis using k ov by simp
  next
    case 3
    have "\<bar>k\<bar> div \<bar>l\<bar> \<le> \<bar>k\<bar> div 2"
      using 3 by (intro zdiv_mono2) simp_all
    also have "\<dots> \<le> 2 ^ 62" using k by simp
    finally have q: "\<bar>k\<bar> div \<bar>l\<bar> \<le> 2 ^ 62" .
    have q0: "0 \<le> \<bar>k\<bar> div \<bar>l\<bar>" by (simp add: div_int_pos_iff)
    show ?thesis
      using q q0 by (auto simp: signed_divide_int_def sgn_if)
  qed
qed

lemma UINT64_eta: "UINT64 (high q) (low q) = q"
  by (cases q) (simp add: UINT64_def)

lemma sint_sub_in_range:
  fixes a b :: "32 word"
  assumes "INT32_in_range (sint a - sint b)"
  shows "sint (a - b) = sint a - sint b"
  using assms
  by (simp add: sint_word_ariths INT32_in_range_def signed_take_bit_int_eq_self)

lemma sint_add_in_range:
  fixes a b :: "32 word"
  assumes "INT32_in_range (sint a + sint b)"
  shows "sint (a + b) = sint a + sint b"
  using assms
  by (simp add: sint_word_ariths INT32_in_range_def signed_take_bit_int_eq_self)

lemma sint_min32: "sint h = - (2 ^ 31) \<longleftrightarrow> h = 0x80000000" for h :: "32 word"
proof
  assume "sint h = - (2 ^ 31)"
  then have "sint h = sint (0x80000000 :: 32 word)" by simp
  then show "h = 0x80000000" by (rule signed_word_eqI)
qed simp

lemma INT64_sub_to_sll:
  "INT64_sub a b = Some r \<Longrightarrow> INT64_to_sll r = INT64_to_sll a - INT64_to_sll b"
  by (simp add: to_sll_eq INT64_sub_bits to_ull_sub)

lemma INT64_add_to_sll:
  "INT64_add a b = Some r \<Longrightarrow> INT64_to_sll r = INT64_to_sll a + INT64_to_sll b"
  by (simp add: to_sll_eq INT64_add_bits to_ull_add)

lemma INT64_neg_defined:
  assumes "ihigh x \<noteq> 0x80000000"
  shows "\<exists>y. INT64_neg x = Some y \<and> INT64_to_sll y = - INT64_to_sll x"
proof -
  define c :: "32 word" where "c = (if (0 :: 32 word) < ilow x then 1 else 0)"
  have h: "- (2 ^ 31) < sint (ihigh x)" "sint (ihigh x) < 2 ^ 31"
    using sint_ge [of "ihigh x"] sint_lt [of "ihigh x"] assms sint_min32 [of "ihigh x"]
    by (simp_all add: order_less_le)
  have c: "sint c = 0 \<or> sint c = 1" by (simp add: c_def)
  have r1: "INT32_in_range (sint (0 :: 32 word) - sint (ihigh x))"
    using h by (simp add: INT32_in_range_def)
  have s1: "sint (- ihigh x) = - sint (ihigh x)"
    using sint_sub_in_range [OF r1] by simp
  have r2: "INT32_in_range (sint (- ihigh x) - sint c)"
    using h c by (auto simp: s1 INT32_in_range_def)
  have "INT64_neg x = Some (INT64 (- ihigh x - c) (- ilow x))"
    using r1 r2
    by (cases "0 < ilow x")
       (simp_all add: INT64_neg_def INT64_sub_def Let_def INT32_sub_def c_def INT64_def)
  then show ?thesis
    using INT64_sub_to_sll [of "INT64 0 0" x] by (simp add: INT64_neg_def to_sll_zero)
qed

lemma INT64_add_defined_iff:
  "(\<exists>r. INT64_add a b = Some r) \<longleftrightarrow>
     INT32_in_range (sint (ihigh a) + sint (ihigh b))
     \<and> INT32_in_range (sint (ihigh a) + sint (ihigh b)
           + (if ilow a + ilow b < ilow a then 1 else 0))"
  by (auto simp: INT64_add_def INT32_add_def Let_def sint_add_in_range split: option.splits)

lemma INT64_sub_defined_iff:
  "(\<exists>r. INT64_sub a b = Some r) \<longleftrightarrow>
     INT32_in_range (sint (ihigh a) - sint (ihigh b))
     \<and> INT32_in_range (sint (ihigh a) - sint (ihigh b)
           - (if ilow a < ilow b then 1 else 0))"
  by (auto simp: INT64_sub_def INT32_sub_def Let_def sint_sub_in_range split: option.splits)

lemma INT64_add_overflow_example:
  "INT64_add (INT64 0x80000000 0xFFFFFFFF) (INT64 0xFFFFFFFF 1) = None"
  by (simp add: INT64_add_def INT32_add_def INT32_in_range_def INT64_def Let_def)

lemma to_sll_min: "sint (INT64_to_sll a) = - (2 ^ 63) \<Longrightarrow> ihigh a = 0x80000000"
proof -
  assume "sint (INT64_to_sll a) = - (2 ^ 63)"
  then have "sint (INT64_to_sll a) = sint (0x8000000000000000 :: 64 word)" by simp
  then have "INT64_to_sll a = 0x8000000000000000" by (rule signed_word_eqI)
  also have "\<dots> = INT64_to_sll (INT64 0x80000000 0)"
    by (simp add: INT64_to_sll_def INT64_def)
  finally have "a = INT64 0x80000000 0" by (rule to_sll_inject)
  then show ?thesis by (simp add: INT64_def)
qed

lemma sint_nonneg64:
  fixes Q :: "64 word"
  assumes "uint Q < 2 ^ 63"
  shows "\<not> sint Q < 0"
proof
  assume "sint Q < 0"
  then have "sint Q = uint Q - 2 ^ 64" using sint64 [of Q] by simp
  with assms sint_ge [of Q] show False by simp
qed

lemma INT64_abs_defined:
  assumes "ihigh x \<noteq> 0x80000000"
  shows "\<exists>y. (if ihigh x <s 0 then INT64_neg x else Some x) = Some y
      \<and> INT64_to_sll y
          = (if sint (INT64_to_sll x) < 0 then - INT64_to_sll x else INT64_to_sll x)"
proof (cases "ihigh x <s 0")
  case True
  moreover from True have "sint (INT64_to_sll x) < 0" using ihigh_neg_iff [of x] by blast
  ultimately show ?thesis using INT64_neg_defined [OF assms] by simp
next
  case False
  moreover from False have "\<not> sint (INT64_to_sll x) < 0" using ihigh_neg_iff [of x] by blast
  ultimately show ?thesis by simp
qed

lemma INT64_div_defined:
  assumes b: "INT64_to_sll b \<noteq> 0"
    and ha: "ihigh a \<noteq> 0x80000000" and hb: "ihigh b \<noteq> 0x80000000"
  shows "\<exists>q. INT64_div a b = Some q
      \<and> sint (INT64_to_sll q) = sint (INT64_to_sll a) sdiv sint (INT64_to_sll b)"
proof -
  define A B where "A = INT64_to_sll a" and "B = INT64_to_sll b"
  have nz: "\<not> (ihigh b = 0 \<and> ilow b = 0)"
    using b by (simp only: to_sll_eq_0_iff not_False_eq_True)
  obtain absThis where at: "(if ihigh a <s 0 then INT64_neg a else Some a) = Some absThis"
    and av: "INT64_to_sll absThis = (if sint A < 0 then - A else A)"
    using INT64_abs_defined [OF ha] unfolding A_def by blast
  obtain absOther where ao: "(if ihigh b <s 0 then INT64_neg b else Some b) = Some absOther"
    and bv: "INT64_to_sll absOther = (if sint B < 0 then - B else B)"
    using INT64_abs_defined [OF hb] unfolding B_def by blast
  define dividend divisor where "dividend = UINT64 (ihigh absThis) (ilow absThis)"
    and "divisor = UINT64 (ihigh absOther) (ilow absOther)"
  define Q where "Q = UINT64_div dividend divisor"
  define result where "result = INT64 (high Q) (low Q)"
  have div: "INT64_div a b
      = (if (ihigh a <s 0) \<noteq> (ihigh b <s 0) then INT64_neg result else Some result)"
    unfolding INT64_div_def if_not_P [OF nz] Let_def at ao option.case result_def Q_def
      dividend_def divisor_def ..
  have dd: "UINT64_to_ull dividend = (if sint A < 0 then - A else A)"
    unfolding dividend_def INT64_to_UINT64_def [symmetric] to_sll_eq [symmetric] by (rule av)
  have dv: "UINT64_to_ull divisor = (if sint B < 0 then - B else B)"
    unfolding divisor_def INT64_to_UINT64_def [symmetric] to_sll_eq [symmetric] by (rule bv)
  have dvnz: "UINT64_to_ull divisor \<noteq> 0"
    using b by (simp add: dv B_def)
  have q: "UINT64_to_ull Q
      = (if sint A < 0 then - A else A) div (if sint B < 0 then - B else B)"
    unfolding Q_def using to_ull_div_mod [OF dvnz, of dividend] by (simp only: dd dv)
  have r: "INT64_to_sll result = UINT64_to_ull Q"
    unfolding result_def to_sll_eq to_UINT64_INT64 UINT64_eta ..
  have sA: "- (2 ^ 63) < sint A" "sint A < 2 ^ 63"
    using sint_ge [of A] sint_lt [of A] to_sll_min [of a] ha
    by (auto simp: A_def order_less_le)
  have "uint (UINT64_to_ull Q) = \<bar>sint A\<bar> div \<bar>sint B\<bar>"
    unfolding q uint_div uint_abs64 ..
  also have "\<dots> \<le> \<bar>sint A\<bar> div 1"
  proof (rule zdiv_mono2)
    have "sint B \<noteq> 0" using b by (simp add: B_def signed_eq_0_iff)
    then show "1 \<le> \<bar>sint B\<bar>" by linarith
  qed simp_all
  also have "\<dots> = \<bar>sint A\<bar>" by simp
  finally have "uint (UINT64_to_ull Q) < 2 ^ 63"
    using sA by simp
  then have "\<not> sint (INT64_to_sll result) < 0"
    unfolding r by (rule sint_nonneg64)
  then have rh: "ihigh result \<noteq> 0x80000000"
    using ihigh_neg_iff [of result] by (auto simp: word_sless_alt)
  have sg: "((ihigh a <s 0) \<noteq> (ihigh b <s 0)) = ((sint A < 0) \<noteq> (sint B < 0))"
    by (simp only: ihigh_neg_iff A_def B_def)
  have "\<exists>q'. INT64_div a b = Some q'
      \<and> INT64_to_sll q'
        = (if (sint A < 0) \<noteq> (sint B < 0) then - UINT64_to_ull Q else UINT64_to_ull Q)"
  proof (cases "(ihigh a <s 0) \<noteq> (ihigh b <s 0)")
    case True
    from INT64_neg_defined [OF rh] obtain y where
      y: "INT64_neg result = Some y" "INT64_to_sll y = - INT64_to_sll result" by blast
    from True have "(sint A < 0) \<noteq> (sint B < 0)" using sg by blast
    with True y show ?thesis by (simp add: div r)
  next
    case False
    then have "\<not> ((sint A < 0) \<noteq> (sint B < 0))" using sg by blast
    with False show ?thesis by (simp add: div r)
  qed
  then obtain q' where q': "INT64_div a b = Some q'"
    and qv: "INT64_to_sll q'
      = (if (sint A < 0) \<noteq> (sint B < 0)
         then - ((if sint A < 0 then - A else A) div (if sint B < 0 then - B else B))
         else (if sint A < 0 then - A else A) div (if sint B < 0 then - B else B))"
    unfolding q by blast
  have "INT64_to_sll q' = word_of_int (sint A sdiv sint B)"
    unfolding qv using b by (intro sdiv_word64) (simp add: B_def)
  moreover have "- (2 ^ 63) \<le> sint A sdiv sint B \<and> sint A sdiv sint B < 2 ^ 63"
    using sA b by (intro sdiv_range) (simp_all add: B_def signed_eq_0_iff)
  ultimately have "sint (INT64_to_sll q') = sint A sdiv sint B"
    by (simp add: sint_sbintrunc' signed_take_bit_int_eq_self)
  with q' show ?thesis by (auto simp: A_def B_def)
qed

lemma INT64_neg_undefined: "ihigh x = 0x80000000 \<Longrightarrow> INT64_neg x = None"
  by (simp add: INT64_neg_def INT64_sub_def INT32_sub_def INT32_in_range_def INT64_def Let_def)

lemma INT64_neg_defined_iff: "(\<exists>y. INT64_neg x = Some y) \<longleftrightarrow> ihigh x \<noteq> 0x80000000"
  using INT64_neg_defined [of x] INT64_neg_undefined [of x] by auto

lemma INT64_div_undefined:
  assumes b: "INT64_to_sll b \<noteq> 0"
    and h: "ihigh a = 0x80000000 \<or> ihigh b = 0x80000000"
  shows "INT64_div a b = None"
proof -
  have nz: "\<not> (ihigh b = 0 \<and> ilow b = 0)"
    using b by (simp only: to_sll_eq_0_iff not_False_eq_True)
  show ?thesis
  proof (cases "ihigh a = 0x80000000")
    case True
    then have "ihigh a <s 0" by (simp add: word_sless_alt)
    then show ?thesis
      unfolding INT64_div_def if_not_P [OF nz] Let_def
      by (simp add: INT64_neg_undefined [OF True])
  next
    case False
    with h have hb: "ihigh b = 0x80000000" by blast
    then have "ihigh b <s 0" by (simp add: word_sless_alt)
    then show ?thesis
      unfolding INT64_div_def if_not_P [OF nz] Let_def
      by (simp add: INT64_neg_undefined [OF hb] split: option.splits)
  qed
qed

lemma INT64_div_defined_iff:
  assumes "INT64_to_sll b \<noteq> 0"
  shows "(\<exists>q. INT64_div a b = Some q) \<longleftrightarrow> ihigh a \<noteq> 0x80000000 \<and> ihigh b \<noteq> 0x80000000"
  using INT64_div_defined [OF assms, of a] INT64_div_undefined [OF assms, of a] by auto

lemma sint_to_sll: "sint (INT64_to_sll x) = sint (ihigh x) * 2 ^ 32 + uint (ilow x)"
proof -
  have u: "uint (INT64_to_sll x) = uint (ihigh x) * 2 ^ 32 + uint (ilow x)"
    using uint_to_ull [of "INT64_to_UINT64 x"] by (simp add: to_sll_eq)
  show ?thesis
  proof (cases "ihigh x <s 0")
    case True
    then have "sint (INT64_to_sll x) < 0" using ihigh_neg_iff [of x] by blast
    then have "sint (INT64_to_sll x) = uint (INT64_to_sll x) - 2 ^ 64"
      using sint64 [of "INT64_to_sll x"] by simp
    moreover have "sint (ihigh x) = uint (ihigh x) - 2 ^ 32"
      using True sint32 [of "ihigh x"] by simp
    ultimately show ?thesis using u by simp
  next
    case False
    then have "\<not> sint (INT64_to_sll x) < 0" using ihigh_neg_iff [of x] by blast
    then have "sint (INT64_to_sll x) = uint (INT64_to_sll x)"
      using sint64 [of "INT64_to_sll x"] by simp
    moreover have "sint (ihigh x) = uint (ihigh x)"
      using False sint32 [of "ihigh x"] by simp
    ultimately show ?thesis using u by simp
  qed
qed

lemma ihigh_div: "sint (ihigh x) = sint (INT64_to_sll x) div 2 ^ 32"
proof -
  have l: "0 \<le> uint (ilow x)" "uint (ilow x) < 2 ^ 32"
    using uint_lt2p [of "ilow x"] by simp_all
  have "(sint (ihigh x) * 2 ^ 32 + uint (ilow x)) div 2 ^ 32 = sint (ihigh x)"
    using l by (simp add: div_pos_pos_trivial)
  then show ?thesis by (simp only: sint_to_sll)
qed

lemma ihigh_bounds:
  assumes "ihigh x \<noteq> 0x80000000"
  shows "- (2 ^ 31) < sint (ihigh x) \<and> sint (ihigh x) < 2 ^ 31"
  using sint_ge [of "ihigh x"] sint_lt [of "ihigh x"] assms sint_min32 [of "ihigh x"]
  by (simp add: order_less_le)

lemma sint_sub64:
  fixes x y :: "64 word"
  assumes "- (2 ^ 63) \<le> sint x - sint y" "sint x - sint y < 2 ^ 63"
  shows "sint (x - y) = sint x - sint y"
  using assms by (simp add: sint_word_ariths signed_take_bit_int_eq_self)

lemma sint_mul64:
  fixes x y :: "64 word"
  assumes "- (2 ^ 63) \<le> sint x * sint y" "sint x * sint y < 2 ^ 63"
  shows "sint (x * y) = sint x * sint y"
  using assms by (simp add: sint_word_ariths signed_take_bit_int_eq_self)

lemma INT64_sub_defined_between:
  assumes ha: "ihigh a \<noteq> 0x80000000"
    and s: "(0 \<le> sint (INT64_to_sll m) \<and> sint (INT64_to_sll m) \<le> sint (INT64_to_sll a))
          \<or> (sint (INT64_to_sll a) \<le> sint (INT64_to_sll m) \<and> sint (INT64_to_sll m) \<le> 0)"
  shows "\<exists>r. INT64_sub a m = Some r
      \<and> INT64_to_sll r = INT64_to_sll a - INT64_to_sll m
      \<and> sint (INT64_to_sll r) = sint (INT64_to_sll a) - sint (INT64_to_sll m)"
proof -
  define A M where "A = sint (INT64_to_sll a)" and "M = sint (INT64_to_sll m)"
  define c :: int where "c = (if ilow a < ilow m then 1 else 0)"
  have hA: "sint (ihigh a) = A div 2 ^ 32" and hM: "sint (ihigh m) = M div 2 ^ 32"
    by (simp_all only: ihigh_div A_def M_def)
  have bA: "- (2 ^ 31) < A div 2 ^ 32" "A div 2 ^ 32 < 2 ^ 31"
    using ihigh_bounds [OF ha] by (simp_all only: hA)
  have c: "c = 0 \<or> c = 1" by (simp add: c_def)
  have rng: "INT32_in_range (A div 2 ^ 32 - M div 2 ^ 32)
      \<and> INT32_in_range (A div 2 ^ 32 - M div 2 ^ 32 - c)"
  proof -
    from s consider "0 \<le> M" "M \<le> A" | "A \<le> M" "M \<le> 0"
      unfolding A_def M_def by blast
    then show ?thesis
    proof cases
      case 1
      have "0 \<le> M div 2 ^ 32" using 1(1) by (simp add: div_int_pos_iff)
      moreover have "M div 2 ^ 32 \<le> A div 2 ^ 32" using 1(2) by (intro zdiv_mono1) simp_all
      ultimately show ?thesis using bA c by (auto simp: INT32_in_range_def)
    next
      case 2
      have "M div 2 ^ 32 \<le> 0 div 2 ^ 32" using 2(2) by (intro zdiv_mono1) simp_all
      then have "M div 2 ^ 32 \<le> 0" by simp
      moreover have "A div 2 ^ 32 \<le> M div 2 ^ 32" using 2(1) by (intro zdiv_mono1) simp_all
      ultimately show ?thesis using bA c by (auto simp: INT32_in_range_def)
    qed
  qed
  have "\<exists>r. INT64_sub a m = Some r"
    unfolding INT64_sub_defined_iff hA hM using rng by (simp add: c_def)
  then obtain r where r: "INT64_sub a m = Some r" by blast
  have w: "INT64_to_sll r = INT64_to_sll a - INT64_to_sll m"
    using r by (rule INT64_sub_to_sll)
  have bnd: "- (2 ^ 63) \<le> A" "A < 2 ^ 63"
    using sint_ge [of "INT64_to_sll a"] sint_lt [of "INT64_to_sll a"] by (simp_all add: A_def)
  have "- (2 ^ 63) \<le> A - M \<and> A - M < 2 ^ 63"
    using s bnd unfolding A_def M_def by auto
  then have "sint (INT64_to_sll a - INT64_to_sll m) = A - M"
    unfolding A_def M_def by (intro sint_sub64) simp_all
  with r w show ?thesis by (simp add: A_def M_def)
qed

lemma quot_unique:
  fixes x y l l' K :: int
  assumes "x * K + l = y * K + l'" "0 \<le> l" "l < K" "0 \<le> l'" "l' < K"
  shows "x = y"
proof -
  have a: "(x * K + l) div K = x" using assms(2,3) by (simp add: div_pos_pos_trivial)
  have b: "(y * K + l') div K = y" using assms(4,5) by (simp add: div_pos_pos_trivial)
  have "x = (x * K + l) div K" by (simp only: a)
  also have "\<dots> = (y * K + l') div K" by (simp only: assms(1))
  also have "\<dots> = y" by (simp only: b)
  finally show ?thesis .
qed

lemma INT64_add_defined_same_sign:
  assumes hs: "ihigh s \<noteq> 0x80000000"
    and w: "INT64_to_sll m + INT64_to_sll r = INT64_to_sll s"
    and v: "sint (INT64_to_sll m) + sint (INT64_to_sll r) = sint (INT64_to_sll s)"
    and sg: "(0 \<le> sint (INT64_to_sll m) \<and> 0 \<le> sint (INT64_to_sll r))
          \<or> (sint (INT64_to_sll m) \<le> 0 \<and> sint (INT64_to_sll r) \<le> 0)"
  shows "INT64_add m r = Some s"
proof -
  define c :: int where "c = (if ilow m + ilow r < ilow m then 1 else 0)"
  define hm hr hs' where "hm = sint (ihigh m)" and "hr = sint (ihigh r)" and "hs' = sint (ihigh s)"
  define lm lr ls where "lm = uint (ilow m)" and "lr = uint (ilow r)" and "ls = uint (ilow s)"
  have l: "0 \<le> lm" "lm < 2 ^ 32" "0 \<le> lr" "lr < 2 ^ 32" "0 \<le> ls" "ls < 2 ^ 32"
    using uint_lt2p [of "ilow m"] uint_lt2p [of "ilow r"] uint_lt2p [of "ilow s"]
    by (simp_all add: lm_def lr_def ls_def)
  have c: "c = (if 2 ^ 32 \<le> lm + lr then 1 else 0)"
    by (simp add: c_def carry_iff lm_def lr_def)
  have e: "(hm * 2 ^ 32 + lm) + (hr * 2 ^ 32 + lr) = hs' * 2 ^ 32 + ls"
    using v by (simp only: sint_to_sll hm_def hr_def hs'_def lm_def lr_def ls_def)
  have "(hm + hr + c) * 2 ^ 32 + (lm + lr - c * 2 ^ 32) = hs' * 2 ^ 32 + ls"
    using e by (simp add: algebra_simps)
  moreover have "0 \<le> lm + lr - c * 2 ^ 32" "lm + lr - c * 2 ^ 32 < 2 ^ 32"
    using l by (auto simp: c)
  ultimately have sum: "hm + hr + c = hs'"
    using l(5,6) by (rule quot_unique)
  have bs: "- (2 ^ 31) < hs'" "hs' < 2 ^ 31"
    using ihigh_bounds [OF hs] by (simp_all add: hs'_def)
  have c01: "c = 0 \<or> c = 1" by (simp add: c_def)
  have sgh: "(0 \<le> hm \<and> 0 \<le> hr) \<or> (hm \<le> 0 \<and> hr \<le> 0)"
  proof -
    have d: "hm = sint (INT64_to_sll m) div 2 ^ 32" "hr = sint (INT64_to_sll r) div 2 ^ 32"
      by (simp_all only: hm_def hr_def ihigh_div)
    from sg show ?thesis
    proof
      assume "0 \<le> sint (INT64_to_sll m) \<and> 0 \<le> sint (INT64_to_sll r)"
      then show ?thesis by (simp add: d div_int_pos_iff)
    next
      assume a: "sint (INT64_to_sll m) \<le> 0 \<and> sint (INT64_to_sll r) \<le> 0"
      have "sint (INT64_to_sll m) div 2 ^ 32 \<le> 0 div 2 ^ 32"
        using a by (intro zdiv_mono1) simp_all
      moreover have "sint (INT64_to_sll r) div 2 ^ 32 \<le> 0 div 2 ^ 32"
        using a by (intro zdiv_mono1) simp_all
      ultimately show ?thesis by (simp add: d)
    qed
  qed
  have rng: "INT32_in_range (hm + hr) \<and> INT32_in_range (hm + hr + c)"
    using sgh sum bs c01 by (auto simp: INT32_in_range_def)
  have "\<exists>t. INT64_add m r = Some t"
    unfolding INT64_add_defined_iff using rng by (simp add: hm_def hr_def c_def)
  then obtain t where t: "INT64_add m r = Some t" by blast
  have "INT64_to_sll t = INT64_to_sll s"
    using INT64_add_to_sll [OF t] w by simp
  then have "t = s" by (rule to_sll_inject)
  with t show ?thesis by simp
qed

lemma sdiv_mult_bounds:
  fixes A B :: int
  shows "(0 \<le> A \<longrightarrow> 0 \<le> A sdiv B * B \<and> A sdiv B * B \<le> A)
       \<and> (A \<le> 0 \<longrightarrow> A \<le> A sdiv B * B \<and> A sdiv B * B \<le> 0)"
proof -
  have e: "A sdiv B * B = A - A smod B" by (simp add: minus_smod_eq_sdiv_mult)
  have m: "0 \<le> \<bar>A\<bar> mod \<bar>B\<bar>" "\<bar>A\<bar> mod \<bar>B\<bar> \<le> \<bar>A\<bar>"
    by (cases "B = 0"; simp add: zmod_le_nonneg_dividend)+
  show ?thesis
    using m unfolding e signed_modulo_int_def by (auto simp: sgn_if)
qed

lemma INT64_div_mod_defined:
  assumes b: "INT64_to_sll b \<noteq> 0"
    and ha: "ihigh a \<noteq> 0x80000000" and hb: "ihigh b \<noteq> 0x80000000"
  shows "\<exists>q r. INT64_div a b = Some q \<and> INT64_mod a b = Some r
      \<and> sint (INT64_to_sll q) = sint (INT64_to_sll a) sdiv sint (INT64_to_sll b)
      \<and> sint (INT64_to_sll r) = sint (INT64_to_sll a) smod sint (INT64_to_sll b)
      \<and> INT64_add (INT64_mul q b) r = Some a"
proof -
  define A B where "A = sint (INT64_to_sll a)" and "B = sint (INT64_to_sll b)"
  have nz: "\<not> (ihigh b = 0 \<and> ilow b = 0)"
    using b by (simp only: to_sll_eq_0_iff not_False_eq_True)
  obtain q where q: "INT64_div a b = Some q" and qv: "sint (INT64_to_sll q) = A sdiv B"
    using INT64_div_defined [OF b ha hb] unfolding A_def B_def by blast
  define m where "m = INT64_mul q b"
  have bnd: "- (2 ^ 63) \<le> A" "A < 2 ^ 63"
    using sint_ge [of "INT64_to_sll a"] sint_lt [of "INT64_to_sll a"] by (simp_all add: A_def)
  have mb: "(0 \<le> A \<longrightarrow> 0 \<le> A sdiv B * B \<and> A sdiv B * B \<le> A)
       \<and> (A \<le> 0 \<longrightarrow> A \<le> A sdiv B * B \<and> A sdiv B * B \<le> 0)"
    by (rule sdiv_mult_bounds)
  have "- (2 ^ 63) \<le> A sdiv B * B \<and> A sdiv B * B < 2 ^ 63"
    using mb bnd by (cases "0 \<le> A") auto
  then have "sint (INT64_to_sll q * INT64_to_sll b) = sint (INT64_to_sll q) * sint (INT64_to_sll b)"
    by (intro sint_mul64) (simp_all add: qv B_def [symmetric])
  then have mv: "sint (INT64_to_sll m) = A sdiv B * B"
    by (simp add: m_def to_sll_mul qv B_def)
  have s: "(0 \<le> sint (INT64_to_sll m) \<and> sint (INT64_to_sll m) \<le> sint (INT64_to_sll a))
          \<or> (sint (INT64_to_sll a) \<le> sint (INT64_to_sll m) \<and> sint (INT64_to_sll m) \<le> 0)"
    unfolding mv A_def [symmetric] using mb by (cases "0 \<le> A") auto
  obtain r where r: "INT64_sub a m = Some r"
    and rw: "INT64_to_sll r = INT64_to_sll a - INT64_to_sll m"
    and rv: "sint (INT64_to_sll r) = A - A sdiv B * B"
    using INT64_sub_defined_between [OF ha s] unfolding mv A_def [symmetric] by blast
  have md: "INT64_mod a b = Some r"
    unfolding INT64_mod_def if_not_P [OF nz] q option.case Let_def m_def [symmetric] by (rule r)
  have rs: "sint (INT64_to_sll r) = A smod B"
    by (simp add: rv minus_sdiv_mult_eq_smod)
  have w: "INT64_to_sll m + INT64_to_sll r = INT64_to_sll a"
    by (simp add: rw)
  have v: "sint (INT64_to_sll m) + sint (INT64_to_sll r) = sint (INT64_to_sll a)"
    by (simp add: mv rv A_def)
  have sg: "(0 \<le> sint (INT64_to_sll m) \<and> 0 \<le> sint (INT64_to_sll r))
          \<or> (sint (INT64_to_sll m) \<le> 0 \<and> sint (INT64_to_sll r) \<le> 0)"
    unfolding mv rv using mb by (cases "0 \<le> A") auto
  have "INT64_add m r = Some a"
    using ha w v sg by (rule INT64_add_defined_same_sign)
  with q md qv rs show ?thesis
    unfolding A_def B_def m_def by blast
qed

lemma INT64_div_runs:
  "INT64_div (INT64 0xFFFFFFFF 0xFFFFFFF9) (INT64 0 2) = Some (INT64 0xFFFFFFFF 0xFFFFFFFD)"
  by code_simp

text \<open>
  Claim C4. For signed \<open>a\<close> and \<open>b\<close> with \<open>b \<noteq> 0\<close>, \<^verbatim>\<open>INT64::operator/\<close> is the
  truncating quotient, and \<open>(a / b) * b + (a % b) = a\<close>. The code does not deliver this for
  an operand whose high word is \<open>0x80000000\<close>: at \<open>a = -2^63 + 1\<close> (words \<open>0x80000000\<close>,
  \<open>1\<close>) and \<open>b = 2\<close> the quotient \<open>-4611686018427387903\<close> is representable, but the
  negation of \<open>a\<close> evaluates \<open>0 - high\<close> on the signed high word \<open>-2^31\<close>, which overflows,
  so the division has no defined result.
\<close>

theorem INT64_div_min_high_word_undefined:
  "INT64_div (INT64 0x80000000 1) (INT64 0 2) = None
   \<and> sint (INT64_to_sll (INT64 0x80000000 1)) = - 9223372036854775807
   \<and> sint (INT64_to_sll (INT64 0 2)) = 2
   \<and> (- 9223372036854775807 :: int) sdiv 2 = - 4611686018427387903
   \<and> INT32_sub 0 (ihigh (INT64 0x80000000 1)) = None"
  by (simp add: INT64_div_def INT64_neg_def INT64_sub_def INT32_sub_def INT32_in_range_def
      INT64_def Let_def word_sless_alt to_sll_eq INT64_to_UINT64_def UINT64_to_ull_def UINT64_def
      signed_divide_int_def)


section \<open>Round trip of the packed literal storage\<close>

lemma STACK_ARRAY_STORAGE_runs: "(STACK_ARRAY_STORAGE [0x1234, 0xABCD, 0xFF :: 16 word] :: 64 word list option) = Some [0x00FFABCD1234]"
  by code_simp

lemma STACK_ARRAY_STORAGE_index_runs: "(STACK_ARRAY_STORAGE_index [0x00FFABCD1234 :: 64 word] 1 :: 16 word option) = Some 0xABCD"
  by code_simp

lemma STACK_ARRAY_STORAGE_index_out_of_range: "(STACK_ARRAY_STORAGE_index [0x00FFABCD1234 :: 64 word] 4 :: 16 word option) = None"
  by code_simp

lemma mask8: "(0xFF :: 'w::len word) = mask 8"
  by (simp add: mask_eq_exp_minus_1)

lemma sh_bound:
  assumes "8 dvd LENGTH('w::len)"
  shows "(k mod (LENGTH('w) div 8)) * 8 + 8 \<le> LENGTH('w)"
proof -
  obtain m where m: "LENGTH('w) = 8 * m" using assms by (auto elim: dvdE)
  then have "0 < m" using len_gt_0 [where 'a = 'w] by simp
  then have "k mod m < m" by simp
  then show ?thesis by (simp add: m)
qed

lemma SetByte_length: "SetByte k v ws = Some ws' \<Longrightarrow> length ws' = length ws"
  by (auto simp: SetByte_def Let_def split: if_splits)

lemma GetByte_SetByte_same:
  fixes ws :: "'w::len word list"
  assumes "8 dvd LENGTH('w)" and "SetByte k v ws = Some ws'"
  shows "GetByte k ws' = Some v"
proof -
  let ?sh = "(k mod (LENGTH('w) div 8)) * 8"
  have sh: "?sh + 8 \<le> LENGTH('w)" by (rule sh_bound [OF assms(1)])
  have "ucast (drop_bit ?sh ((w AND NOT (push_bit ?sh (mask 8))) OR push_bit ?sh (ucast v)) AND mask 8) = v"
    for w :: "'w word"
    using sh by (intro bit_word_eqI) (auto simp: bit_simps)
  then show ?thesis
    using assms(2) by (auto simp: SetByte_def GetByte_def Let_def mask8 split: if_splits)
qed

lemma GetByte_SetByte_other:
  fixes ws :: "'w::len word list"
  assumes "8 dvd LENGTH('w)" and "SetByte k v ws = Some ws'" and "k' \<noteq> k"
  shows "GetByte k' ws' = GetByte k' ws"
proof -
  define m where "m = LENGTH('w) div 8"
  let ?sh = "(k mod m) * 8" and ?sh' = "(k' mod m) * 8"
  have wi: "k div m < length ws"
    and ws': "ws' = ws[k div m := (ws ! (k div m) AND NOT (push_bit ?sh (mask 8))) OR push_bit ?sh (ucast v)]"
    using assms(2) by (auto simp: SetByte_def Let_def mask8 m_def split: if_splits)
  show ?thesis
  proof (cases "k' div m = k div m")
    case False
    then show ?thesis
      by (simp add: GetByte_def Let_def ws' m_def [symmetric])
  next
    case True
    then have ne: "k' mod m \<noteq> k mod m"
      using assms(3) by (metis div_mult_mod_eq)
    have "ucast (drop_bit ?sh' ((w AND NOT (push_bit ?sh (mask 8))) OR push_bit ?sh (ucast v)) AND mask 8)
        = (ucast (drop_bit ?sh' w AND mask 8) :: UINT8)" for w :: "'w word"
    proof (rule bit_word_eqI)
      fix n assume "n < LENGTH(8)"
      then have n: "n < 8" by simp
      have "x \<noteq> y \<Longrightarrow> \<not> (x * 8 \<le> y * 8 + n \<and> y * 8 + n < x * 8 + 8)" for x y :: nat
        using n by arith
      from this [of "k mod m" "k' mod m"] ne
      have out: "\<not> (?sh \<le> ?sh' + n \<and> ?sh' + n < ?sh + 8)" by simp
      show "bit (ucast (drop_bit ?sh' ((w AND NOT (push_bit ?sh (mask 8))) OR push_bit ?sh (ucast v)) AND mask 8) :: UINT8) n
        = bit (ucast (drop_bit ?sh' w AND mask 8) :: UINT8) n"
        using n out sh_bound [OF assms(1), of k']
        by (auto simp: bit_simps m_def dest: bit_imp_le_length)
    qed
    then show ?thesis
      using True wi by (simp add: GetByte_def Let_def ws' m_def [symmetric] mask8)
  qed
qed

lemma bytes_pos:
  assumes "8 dvd LENGTH('w::len)"
  shows "0 < LENGTH('w) div 8"
proof -
  obtain m where m: "LENGTH('w) = 8 * m" using assms by (auto elim: dvdE)
  then have "0 < m" using len_gt_0 [where 'a = 'w] by simp
  then show ?thesis by (simp add: m)
qed

lemma SetByte_in_range:
  fixes ws :: "'w::len word list"
  assumes "8 dvd LENGTH('w)" and "k < length ws * (LENGTH('w) div 8)"
  shows "\<exists>ws'. SetByte k v ws = Some ws'"
proof -
  have "0 < LENGTH('w) div 8"
    by (rule bytes_pos [OF assms(1)])
  then have "k div (LENGTH('w) div 8) < length ws"
    using assms(2) by (simp add: div_less_iff_less_mult)
  then show ?thesis by (simp add: SetByte_def Let_def)
qed

lemma bytes_inv:
  fixes ws :: "'w::len word list" and v :: "'c::len word"
  assumes w: "8 dvd LENGTH('w)"
    and r: "i * (LENGTH('c) div 8) + LENGTH('c) div 8 \<le> length ws * (LENGTH('w) div 8)"
  shows "\<exists>ws'. STACK_ARRAY_STORAGE_bytes v i b ws = Some ws'
      \<and> length ws' = length ws
      \<and> (\<forall>k. k < i * (LENGTH('c) div 8) + b \<or> i * (LENGTH('c) div 8) + LENGTH('c) div 8 \<le> k
             \<longrightarrow> GetByte k ws' = GetByte k ws)
      \<and> (\<forall>b'. b \<le> b' \<and> b' < LENGTH('c) div 8
             \<longrightarrow> GetByte (i * (LENGTH('c) div 8) + b') ws'
                   = Some (ucast (drop_bit (b' * 8) v AND 0xFF)))"
  using r
proof (induction v i b ws rule: STACK_ARRAY_STORAGE_bytes.induct)
  case (1 v i b ws)
  let ?sz = "LENGTH('c) div 8"
  show ?case
  proof (cases "b < ?sz")
    case False
    then show ?thesis
      by (subst STACK_ARRAY_STORAGE_bytes.simps) auto
  next
    case True
    let ?k = "i * ?sz + b" and ?d = "ucast (drop_bit (b * 8) v AND 0xFF) :: UINT8"
    from True 1(2) have "?k < length ws * (LENGTH('w) div 8)" by simp
    from SetByte_in_range [OF w this] obtain ws1 where s: "SetByte ?k ?d ws = Some ws1"
      by blast
    have len: "length ws1 = length ws" by (rule SetByte_length [OF s])
    from 1(1) [OF True s] 1(2) obtain ws' where
      run: "STACK_ARRAY_STORAGE_bytes v i (Suc b) ws1 = Some ws'"
      and l: "length ws' = length ws1"
      and keep: "\<And>k. k < i * ?sz + Suc b \<or> i * ?sz + ?sz \<le> k \<Longrightarrow> GetByte k ws' = GetByte k ws1"
      and set: "\<And>b'. Suc b \<le> b' \<Longrightarrow> b' < ?sz \<Longrightarrow>
          GetByte (i * ?sz + b') ws' = Some (ucast (drop_bit (b' * 8) v AND 0xFF))"
      by (auto simp: len)
    have "STACK_ARRAY_STORAGE_bytes v i b ws = Some ws'"
      using True s run by (subst STACK_ARRAY_STORAGE_bytes.simps) simp
    moreover have "length ws' = length ws" using l len by simp
    moreover have "GetByte k ws' = GetByte k ws"
      if "k < i * ?sz + b \<or> i * ?sz + ?sz \<le> k" for k
    proof -
      from that True have "k \<noteq> ?k" by auto
      from keep [of k] that GetByte_SetByte_other [OF w s this] show ?thesis by auto
    qed
    moreover have "GetByte (i * ?sz + b') ws' = Some (ucast (drop_bit (b' * 8) v AND 0xFF))"
      if "b \<le> b'" "b' < ?sz" for b'
    proof (cases "b' = b")
      case True
      with keep [of ?k] GetByte_SetByte_same [OF w s] show ?thesis by simp
    next
      case False
      with that set [of b'] show ?thesis by simp
    qed
    ultimately show ?thesis by blast
  qed
qed

lemma elems_inv:
  fixes ws :: "'w::len word list" and src :: "'c::len word list"
  assumes w: "8 dvd LENGTH('w)"
    and r: "length src * (LENGTH('c) div 8) \<le> length ws * (LENGTH('w) div 8)"
  shows "\<exists>ws'. STACK_ARRAY_STORAGE_elems src i ws = Some ws'
      \<and> length ws' = length ws
      \<and> (\<forall>k. k < i * (LENGTH('c) div 8) \<longrightarrow> GetByte k ws' = GetByte k ws)
      \<and> (\<forall>j b. i \<le> j \<and> j < length src \<and> b < LENGTH('c) div 8
             \<longrightarrow> GetByte (j * (LENGTH('c) div 8) + b) ws'
                   = Some (ucast (drop_bit (b * 8) (src ! j) AND 0xFF)))"
  using r
proof (induction src i ws rule: STACK_ARRAY_STORAGE_elems.induct)
  case (1 src i ws)
  let ?sz = "LENGTH('c) div 8"
  show ?case
  proof (cases "i < length src")
    case False
    then show ?thesis
      by (subst STACK_ARRAY_STORAGE_elems.simps) auto
  next
    case True
    then have "Suc i \<le> length src" by simp
    then have "Suc i * ?sz \<le> length src * ?sz" by (rule mult_le_mono1)
    with 1(2) have rng: "i * ?sz + ?sz \<le> length ws * (LENGTH('w) div 8)" by simp
    from bytes_inv [OF w rng, of "src ! i" 0] obtain ws1 where
      b: "STACK_ARRAY_STORAGE_bytes (src ! i) i 0 ws = Some ws1"
      and len: "length ws1 = length ws"
      and keep1: "\<And>k. k < i * ?sz \<or> i * ?sz + ?sz \<le> k \<Longrightarrow> GetByte k ws1 = GetByte k ws"
      and set1: "\<And>b'. b' < ?sz \<Longrightarrow>
          GetByte (i * ?sz + b') ws1 = Some (ucast (drop_bit (b' * 8) (src ! i) AND 0xFF))"
      by auto
    from 1(1) [OF True b] 1(2) obtain ws' where
      run: "STACK_ARRAY_STORAGE_elems src (Suc i) ws1 = Some ws'"
      and l: "length ws' = length ws1"
      and keep: "\<And>k. k < Suc i * ?sz \<Longrightarrow> GetByte k ws' = GetByte k ws1"
      and set: "\<And>j b. Suc i \<le> j \<Longrightarrow> j < length src \<Longrightarrow> b < ?sz \<Longrightarrow>
          GetByte (j * ?sz + b) ws' = Some (ucast (drop_bit (b * 8) (src ! j) AND 0xFF))"
      by (auto simp: len)
    have "STACK_ARRAY_STORAGE_elems src i ws = Some ws'"
      using True b run by (subst STACK_ARRAY_STORAGE_elems.simps) simp
    moreover have "length ws' = length ws" using l len by simp
    moreover have "GetByte k ws' = GetByte k ws" if "k < i * ?sz" for k
      using that keep [of k] keep1 [of k] by simp
    moreover have "GetByte (j * ?sz + b) ws' = Some (ucast (drop_bit (b * 8) (src ! j) AND 0xFF))"
      if "i \<le> j" "j < length src" "b < ?sz" for j b
    proof (cases "j = i")
      case eq: True
      from that(3) have "i * ?sz + b < Suc i * ?sz" by simp
      from keep [OF this] set1 [OF that(3)] eq show ?thesis by simp
    next
      case False
      with that set [of j b] show ?thesis by simp
    qed
    ultimately show ?thesis by blast
  qed
qed

lemma word_count_covers:
  assumes "0 < (m::nat)"
  shows "x \<le> (x + m - 1) div m * m"
proof -
  have "x + m - 1 = (x + m - 1) div m * m + (x + m - 1) mod m" by simp
  moreover have "(x + m - 1) mod m \<le> m - 1" using assms
    by (metis Suc_pred' less_Suc_eq_le mod_less_divisor)
  ultimately show ?thesis using assms by linarith
qed

lemma index_bytes_inv:
  fixes ws :: "'w::len word list" and x :: "'c::len word"
  assumes c: "8 dvd LENGTH('c)"
    and g: "\<And>b'. b' < LENGTH('c) div 8 \<Longrightarrow>
          GetByte (base + b') ws = Some (ucast (drop_bit (b' * 8) x AND 0xFF))"
    and le: "b \<le> LENGTH('c) div 8"
    and v: "v = take_bit (b * 8) x"
  shows "STACK_ARRAY_STORAGE_index_bytes base b v ws = Some x"
  using g le v
proof (induction base b v ws rule: STACK_ARRAY_STORAGE_index_bytes.induct)
  case (1 base b v ws)
  let ?sz = "LENGTH('c) div 8"
  have L: "LENGTH('c) = ?sz * 8" using c by simp
  show ?case
  proof (cases "b < ?sz")
    case False
    with 1(3) have "b = ?sz" by simp
    then have "v = x" using 1(4) L by simp
    with False show ?thesis
      by (subst STACK_ARRAY_STORAGE_index_bytes.simps) simp
  next
    case True
    let ?g = "ucast (drop_bit (b * 8) x AND 0xFF) :: UINT8"
    have gb: "GetByte (base + b) ws = Some ?g" by (rule 1(2) [OF True])
    have step: "v OR push_bit (b * 8) (ucast ?g) = take_bit (Suc b * 8) x"
      unfolding 1(4) mask8
      by (rule bit_word_eqI) (auto simp: bit_simps dest: bit_imp_le_length)
    from True have "Suc b \<le> ?sz" by simp
    from 1(1) [OF True gb 1(2) this step] True gb show ?thesis
      by (subst STACK_ARRAY_STORAGE_index_bytes.simps) simp
  qed
qed

lemma storage_roundtrip:
  fixes src :: "'c::len word list"
  assumes c: "8 dvd LENGTH('c)" and w: "8 dvd LENGTH('w::len)"
  shows "\<exists>st :: 'w word list. STACK_ARRAY_STORAGE src = Some st
      \<and> (\<forall>i<length src. STACK_ARRAY_STORAGE_index st i = Some (src ! i))"
proof -
  let ?sz = "LENGTH('c) div 8" and ?wb = "LENGTH('w) div 8"
  let ?wc = "(length src * ?sz + ?wb - 1) div ?wb"
  let ?init = "replicate ?wc 0 :: 'w word list"
  have "length src * ?sz \<le> length ?init * ?wb"
    using word_count_covers [OF bytes_pos [OF w], of "length src * ?sz"] by simp
  from elems_inv [OF w this, of 0] obtain st where
    run: "STACK_ARRAY_STORAGE_elems src 0 ?init = Some st"
    and set: "\<And>j b. j < length src \<Longrightarrow> b < ?sz \<Longrightarrow>
          GetByte (j * ?sz + b) st = Some (ucast (drop_bit (b * 8) (src ! j) AND 0xFF))"
    by auto
  have "STACK_ARRAY_STORAGE src = Some st"
    using run by (simp add: STACK_ARRAY_STORAGE_def Let_def)
  moreover have "STACK_ARRAY_STORAGE_index st i = Some (src ! i)" if "i < length src" for i
    unfolding STACK_ARRAY_STORAGE_index_def Let_def
    by (rule index_bytes_inv [OF c set [OF that]]) simp_all
  ultimately show ?thesis by blast
qed


text \<open>
  Claim C7. For a literal array \<open>src\<close> of elements 1, 2 or 4 bytes wide, the constructor
  builds a storage without any access outside it, and reading index \<open>i < N\<close> of that storage
  gives back \<open>src[i]\<close>.
\<close>

theorem STACK_ARRAY_STORAGE_roundtrip:
  fixes src :: "'c::len word list"
  assumes "LENGTH('c) \<in> {8, 16, 32}" and "LENGTH('w::len) \<in> {32, 64}"
  shows "\<exists>st :: 'w word list. STACK_ARRAY_STORAGE src = Some st
      \<and> (\<forall>i<length src. STACK_ARRAY_STORAGE_index st i = Some (src ! i))"
proof (rule storage_roundtrip)
  show "8 dvd LENGTH('c)" using assms(1) by auto
  show "8 dvd LENGTH('w)" using assms(2) by auto
qed

theorem STACK_ARRAY_STORAGE_roundtrip_witness:
  "LENGTH(16) \<in> {8, 16, 32} \<and> LENGTH(64) \<in> {32, 64}
   \<and> (\<exists>st :: 64 word list. STACK_ARRAY_STORAGE [0x1234, 0xABCD, 0xFF :: 16 word] = Some st
        \<and> STACK_ARRAY_STORAGE_index st 1 = Some (0xABCD :: 16 word))"
proof -
  have c: "LENGTH(16) \<in> {8, 16, 32}" and w: "LENGTH(64) \<in> {32, 64}" by simp_all
  from STACK_ARRAY_STORAGE_roundtrip [OF c w, of "[0x1234, 0xABCD, 0xFF]"]
  obtain st :: "64 word list" where
    "STACK_ARRAY_STORAGE [0x1234, 0xABCD, 0xFF :: 16 word] = Some st"
    "\<forall>i<length [0x1234, 0xABCD, 0xFF :: 16 word].
        STACK_ARRAY_STORAGE_index st i = Some ([0x1234, 0xABCD, 0xFF :: 16 word] ! i)"
    by blast
  then have "STACK_ARRAY_STORAGE [0x1234, 0xABCD, 0xFF :: 16 word] = Some st
        \<and> STACK_ARRAY_STORAGE_index st 1 = Some (0xABCD :: 16 word)"
    by (auto dest: spec [of _ 1])
  with c w show ?thesis by blast
qed

section \<open>Copying memory\<close>

lemma memcpy_loop_frame:
  "a < d + i \<or> d + count \<le> a \<Longrightarrow> memcpy_loop d s count i mem a = mem a"
proof (induction d s count i mem rule: memcpy_loop.induct)
  case (1 d s count i mem)
  show ?case
  proof (cases "i < count")
    case True
    with 1 show ?thesis
      by (subst memcpy_loop.simps) (auto simp: fun_upd_def)
  next
    case False
    then show ?thesis by (subst memcpy_loop.simps) simp
  qed
qed

lemma memcpy_loop_copy:
  "d \<le> s \<or> s + count \<le> d \<Longrightarrow> i \<le> j \<Longrightarrow> j < count \<Longrightarrow>
     memcpy_loop d s count i mem (d + j) = mem (s + j)"
proof (induction d s count i mem rule: memcpy_loop.induct)
  case (1 d s count i mem)
  from 1(3,4) have i: "i < count" by simp
  show ?case
  proof (cases "j = i")
    case True
    have "memcpy_loop d s count (Suc i) (mem(d + i := mem (s + i))) (d + i)
        = (mem(d + i := mem (s + i))) (d + i)"
      by (rule memcpy_loop_frame) simp
    with True i show ?thesis
      by (subst memcpy_loop.simps) simp
  next
    case False
    with 1(3) have "Suc i \<le> j" by simp
    from 1(1) [OF i 1(2) this 1(4)] 1(2) 1(3) 1(4) False i show ?thesis
      by (subst memcpy_loop.simps) (auto simp: fun_upd_def)
  qed
qed


text \<open>
  Claim C9, as stated: in every call with non-null pointers and a non-zero count, each of the
  first \<open>count\<close> bytes of \<open>dest\<close> ends up equal to the corresponding byte of \<open>src\<close>.
  The loop copies forward, byte by byte, so this fails when the two ranges overlap: with
  \<open>dest = src + 1\<close> the second byte of \<open>dest\<close> is not the second byte that \<open>src\<close> held
  before the call, and with \<open>dest = src - 1\<close> the first byte of \<open>dest\<close> is not the first
  byte that \<open>src\<close> holds after it.
\<close>

theorem memcpy_overlap_counterexample:
  "snd (memcpy 2 1 2 overlap_mem) (2 + 1) \<noteq> overlap_mem (1 + 1)
   \<and> snd (memcpy 1 2 2 overlap_mem) (1 + 0) \<noteq> snd (memcpy 1 2 2 overlap_mem) (2 + 0)"
  by (simp add: memcpy_def memcpy_loop.simps overlap_mem_def)


text \<open>
  Claim C9, amended: when \<open>dest\<close> is null, \<open>src\<close> is null or \<open>count\<close> is zero, memory is
  unchanged; the return value is always \<open>dest\<close>; when both pointers are non-null and
  \<open>dest\<close> does not lie inside the source range after its start (\<open>dest \<le> src\<close> or
  \<open>src + count \<le> dest\<close>), each of the first \<open>count\<close> bytes of \<open>dest\<close> equals the byte that
  \<open>src\<close> held at the same offset before the call; no byte outside the destination range
  changes.
\<close>

theorem memcpy_copies:
  "(dest = 0 \<or> src = 0 \<or> count = 0 \<longrightarrow> memcpy dest src count mem = (dest, mem))
   \<and> fst (memcpy dest src count mem) = dest
   \<and> (dest \<noteq> 0 \<and> src \<noteq> 0 \<and> (dest \<le> src \<or> src + count \<le> dest) \<longrightarrow>
        (\<forall>i<count. snd (memcpy dest src count mem) (dest + i) = mem (src + i)))
   \<and> (\<forall>a. a < dest \<or> dest + count \<le> a \<longrightarrow> snd (memcpy dest src count mem) a = mem a)"
  by (auto simp: memcpy_def memcpy_loop_copy memcpy_loop_frame)

theorem memcpy_copies_witness:
  "(5::nat) \<noteq> 0 \<and> (1::nat) \<noteq> 0 \<and> ((5::nat) \<le> 1 \<or> (1::nat) + 2 \<le> 5)
   \<and> snd (memcpy 5 1 2 overlap_mem) (5 + 0) = 0xAA
   \<and> snd (memcpy 5 1 2 overlap_mem) (5 + 1) = 0xBB
   \<and> fst (memcpy 5 1 2 overlap_mem) = 5
   \<and> snd (memcpy 5 1 2 overlap_mem) 4 = 0
   \<and> memcpy 0 1 2 overlap_mem = (0, overlap_mem)"
proof -
  note t = memcpy_copies [of 5 1 2 overlap_mem]
  from t have c: "\<forall>i<2. snd (memcpy 5 1 2 overlap_mem) (5 + i) = overlap_mem (1 + i)"
    by simp
  from t have f: "\<forall>a. a < 5 \<or> 5 + 2 \<le> a \<longrightarrow> snd (memcpy 5 1 2 overlap_mem) a = overlap_mem a"
    by simp
  from t have r: "fst (memcpy 5 1 2 overlap_mem) = 5"
    by simp
  show ?thesis
    using c [rule_format, of 0] c [rule_format, of 1] f [rule_format, of 4] r
      memcpy_copies [of 0 1 2 overlap_mem]
    by (simp add: overlap_mem_def)
qed

section \<open>Conversion of a DOUBLE to an integer\<close>

lemma trunc_props:
  fixes v :: real
  defines "n \<equiv> (if 0 \<le> v then \<lfloor>v\<rfloor> else \<lceil>v\<rceil>)"
  shows "\<bar>of_int n\<bar> \<le> \<bar>v\<bar>" and "\<bar>v\<bar> - \<bar>of_int n\<bar> < 1"
    and "0 \<le> v \<Longrightarrow> 0 \<le> n" and "v \<le> 0 \<Longrightarrow> n \<le> 0"
proof -
  show "\<bar>of_int n\<bar> \<le> \<bar>v\<bar>" "\<bar>v\<bar> - \<bar>of_int n\<bar> < 1"
    unfolding n_def by (simp_all; linarith)+
  show "0 \<le> v \<Longrightarrow> 0 \<le> n" "v \<le> 0 \<Longrightarrow> n \<le> 0"
    unfolding n_def by (auto simp: ceiling_le_zero)
qed

lemma DOUBLE_fields:
  "DOUBLE_exponent (DOUBLE 0x3FFE6666 0x66666666) = 1023"
  "DOUBLE_mantissa (DOUBLE 0x3FFE6666 0x66666666) = 0xE666666666666"
  "\<not> DOUBLE_sign (DOUBLE 0x3FFE6666 0x66666666)"
  by (simp_all add: DOUBLE_exponent_def DOUBLE_mantissa_def DOUBLE_sign_def DOUBLE_def
      UINT64_to_ull_def UINT64_def)

lemma DOUBLE_to_int_examples:
  "DOUBLE_to_int (DOUBLE 0x3FF00000 0) = 1"
  "DOUBLE_to_int (DOUBLE 0x3FFE6666 0x66666666) = 1"
  "DOUBLE_to_int (DOUBLE 0x40592000 0) = 100"
  "DOUBLE_to_int (DOUBLE 0x3FE00000 0) = 0"
  "DOUBLE_to_int (DOUBLE 0xBFF00000 0) = - 1"
  by (simp_all add: DOUBLE_to_int_def DOUBLE_value_def DOUBLE_exponent_def DOUBLE_mantissa_def
      DOUBLE_sign_def DOUBLE_def UINT64_to_ull_def UINT64_def Let_def ceiling_minus)

text \<open>
  Claim C8. Converting a finite \<open>DOUBLE\<close> to an integer discards the fractional part: the
  result has the sign of the value and its magnitude is the largest integer not above the
  magnitude of the value. The doubles written \<open>1.9\<close>, \<open>100.5\<close>, \<open>0.5\<close> and \<open>-1.0\<close> (bit
  patterns \<open>0x3FFE666666666666\<close>, \<open>0x4059200000000000\<close>, \<open>0x3FE0000000000000\<close> and
  \<open>0xBFF0000000000000\<close>) convert to 1, 100, 0 and -1.
\<close>

theorem DOUBLE_to_int_truncates:
  "(DOUBLE_finite d \<longrightarrow>
      \<bar>of_int (DOUBLE_to_int d)\<bar> \<le> \<bar>DOUBLE_value d\<bar>
      \<and> \<bar>DOUBLE_value d\<bar> - \<bar>of_int (DOUBLE_to_int d)\<bar> < 1
      \<and> (0 \<le> DOUBLE_value d \<longrightarrow> 0 \<le> DOUBLE_to_int d)
      \<and> (DOUBLE_value d \<le> 0 \<longrightarrow> DOUBLE_to_int d \<le> 0))
   \<and> DOUBLE_to_int (DOUBLE 0x3FFE6666 0x66666666) = 1
   \<and> DOUBLE_to_int (DOUBLE 0x40592000 0) = 100
   \<and> DOUBLE_to_int (DOUBLE 0x3FE00000 0) = 0
   \<and> DOUBLE_to_int (DOUBLE 0xBFF00000 0) = - 1"
  using trunc_props [of "DOUBLE_value d"] DOUBLE_to_int_examples
  by (simp add: DOUBLE_to_int_def Let_def)

theorem DOUBLE_to_int_truncates_witness:
  "DOUBLE_finite (DOUBLE 0x40592000 0)
   \<and> DOUBLE_value (DOUBLE 0x40592000 0) = 201 / 2
   \<and> \<bar>of_int (DOUBLE_to_int (DOUBLE 0x40592000 0))\<bar> \<le> \<bar>DOUBLE_value (DOUBLE 0x40592000 0)\<bar>
   \<and> \<bar>DOUBLE_value (DOUBLE 0x40592000 0)\<bar> - \<bar>of_int (DOUBLE_to_int (DOUBLE 0x40592000 0))\<bar> < 1
   \<and> 0 \<le> DOUBLE_to_int (DOUBLE 0x40592000 0)"
proof -
  have f: "DOUBLE_finite (DOUBLE 0x40592000 0)"
    by (simp add: DOUBLE_finite_def DOUBLE_exponent_def DOUBLE_def UINT64_to_ull_def UINT64_def)
  have v: "DOUBLE_value (DOUBLE 0x40592000 0) = 201 / 2"
    by (simp add: DOUBLE_value_def DOUBLE_exponent_def DOUBLE_mantissa_def DOUBLE_sign_def
        DOUBLE_def UINT64_to_ull_def UINT64_def Let_def)
  have p: "(0::real) \<le> 201 / 2" by simp
  show ?thesis
    using DOUBLE_to_int_truncates [of "DOUBLE 0x40592000 0"] f p
    by (simp add: v)
qed

end
